theory Spec2Isabelle
  imports Main
begin

section \<open>The SQL script splitter of \<open>scripts/sql/trino_queries_flow.py\<close>\<close>

text \<open>
  The function \<open>split_sql_queries\<close> cuts the text of a SQL script into statements. It walks
  over the lines of the script, strips each line, and scans it character by character with
  three flags (\<open>in_string\<close>, \<open>string_char\<close>, \<open>in_comment\<close>) that live across lines.

  A Python \<open>str\<close> is modelled as a \<open>string\<close>; a \<open>char\<close> stands for a code point below 256.
\<close>

subsection \<open>The string methods the function calls\<close>

text \<open>\<open>str.isspace\<close> on one character, for the code points below 256.\<close>

definition isspace :: "char \<Rightarrow> bool" where
  "isspace c =
     (let n = (of_char c :: nat)
      in (9 \<le> n \<and> n \<le> 13) \<or> (28 \<le> n \<and> n \<le> 32) \<or> n = 133 \<or> n = 160)"

text \<open>\<open>s.strip()\<close>: whitespace is removed at both ends.\<close>

definition strip :: "string \<Rightarrow> string" where
  "strip s = rev (dropWhile isspace (rev (dropWhile isspace s)))"

text \<open>\<open>s.split(sep)\<close> for a separator of one character; the empty string gives \<open>['']\<close>.\<close>

fun split_on :: "char \<Rightarrow> string \<Rightarrow> string list" where
  "split_on sep [] = [[]]"
| "split_on sep (c # cs) =
     (if c = sep then [] # split_on sep cs
      else (case split_on sep cs of [] \<Rightarrow> [[c]] | p # ps \<Rightarrow> (c # p) # ps))"

text \<open>\<open>sep.join(parts)\<close>.\<close>

fun join :: "string \<Rightarrow> string list \<Rightarrow> string" where
  "join sep [] = []"
| "join sep [p] = p"
| "join sep (p # q # ps) = p @ sep @ join sep (q # ps)"

text \<open>\<open>s.startswith(p)\<close>.\<close>

definition startswith :: "string \<Rightarrow> string \<Rightarrow> bool" where
  "startswith s p = (take (length p) s = p)"

subsection \<open>Errors and checked indexing\<close>

text \<open>\<open>line[i]\<close> raises \<open>IndexError\<close> out of range; the indices here are never negative.\<close>

datatype error = IndexError

definition index :: "string \<Rightarrow> nat \<Rightarrow> error + char" where
  "index line i = (if i < length line then Inr (line ! i) else Inl IndexError)"

text \<open>
  The look-ahead \<open>i + 1 < len(line) and line[i + 1] == c\<close>: Python's \<open>and\<close> reads
  \<open>line[i + 1]\<close> only when the bound holds.
\<close>

definition next_is :: "string \<Rightarrow> nat \<Rightarrow> char \<Rightarrow> bool" where
  "next_is line i c = (i + 1 < length line \<and> line ! (i + 1) = c)"

subsection \<open>The scanner state\<close>

record scan_state =
  queries :: "string list"
  current_query :: "string list"
  in_string :: bool
  string_char :: "char option"
  in_comment :: bool

definition init_state :: scan_state where
  "init_state =
     \<lparr>queries = [], current_query = [], in_string = False, string_char = None,
      in_comment = False\<rparr>"

text \<open>
  The body of the delimiter branch: the text of the line before the \<open>;\<close> closes the
  current statement, which is kept when it is not empty after stripping.
\<close>

definition emit :: "scan_state \<Rightarrow> string \<Rightarrow> scan_state" where
  "emit st piece =
     (let current = current_query st @ [piece];
          full_query = strip (join '' '' current)
      in st\<lparr>queries := (if full_query \<noteq> [] then queries st @ [full_query] else queries st),
            current_query := []\<rparr>)"

subsection \<open>The inner loop over the characters of a line\<close>

text \<open>
  \<open>scan_line st line i\<close> is the \<open>while i < len(line)\<close> loop, entered with the flags of
  \<open>st\<close>. It returns the state and the value of \<open>line\<close> when the loop is left (the delimiter
  branch replaces \<open>line\<close> by the text after the \<open>;\<close> and restarts at index 0). The
  \<open>break\<close> of the \<open>--\<close> branch leaves the loop at once.
\<close>

function scan_line :: "scan_state \<Rightarrow> string \<Rightarrow> nat \<Rightarrow> error + (scan_state \<times> string)" where
  "scan_line st line i =
     (if i < length line then
        (case index line i of
           Inl e \<Rightarrow> Inl e
         | Inr char \<Rightarrow>
             if (char = CHR 0x27 \<or> char = CHR 0x22) \<and> \<not> in_comment st then
               (if in_string st \<and> Some char = string_char st then
                  scan_line (st\<lparr>in_string := False, string_char := None\<rparr>) line (i + 1)
                else if \<not> in_string st then
                  scan_line (st\<lparr>in_string := True, string_char := Some char\<rparr>) line (i + 1)
                else scan_line st line (i + 1))
             else if char = CHR ''-'' \<and> next_is line i (CHR ''-'') \<and> \<not> in_string st then
               Inr (st\<lparr>in_comment := True\<rparr>, line)
             else if char = CHR ''*'' \<and> next_is line i (CHR ''/'') \<and> \<not> in_string st then
               scan_line (st\<lparr>in_comment := False\<rparr>) line (i + 1 + 1)
             else if char = CHR ''/'' \<and> next_is line i (CHR ''*'') \<and> \<not> in_string st then
               scan_line (st\<lparr>in_comment := True\<rparr>) line (i + 1 + 1)
             else if char = CHR '';'' \<and> \<not> in_string st \<and> \<not> in_comment st then
               scan_line (emit st (take i line)) (drop (i + 1) line) 0
             else scan_line st line (i + 1))
      else Inr (st, line))"
  by pat_completeness auto

termination
  by (relation "measure (\<lambda>(st, line, i). length line - i)") auto

subsection \<open>The outer loop over the lines\<close>

text \<open>
  One round of \<open>for line in sql_content.split('\n')\<close>: blank lines and lines that start
  with \<open>--\<close> are skipped; otherwise the line is scanned, and what is left of it is added to
  the current statement unless the scan ended inside a comment.
\<close>

fun process_lines :: "scan_state \<Rightarrow> string list \<Rightarrow> error + scan_state" where
  "process_lines st [] = Inr st"
| "process_lines st (l # ls) =
     (let line = strip l
      in if line = [] then process_lines st ls
         else if startswith line ''--'' then process_lines st ls
         else
           (case scan_line st line 0 of
              Inl e \<Rightarrow> Inl e
            | Inr (st', line') \<Rightarrow>
                if \<not> in_comment st'
                then process_lines (st'\<lparr>current_query := current_query st' @ [line']\<rparr>) ls
                else process_lines st' ls))"

text \<open>The code after the loop: the last statement, when there is one and no comment is open.\<close>

definition finish :: "scan_state \<Rightarrow> string list" where
  "finish st =
     (if current_query st \<noteq> [] \<and> \<not> in_comment st then
        (let full_query = strip (join '' '' (current_query st))
         in if full_query \<noteq> [] then queries st @ [full_query] else queries st)
      else queries st)"

definition split_sql_queries :: "string \<Rightarrow> error + string list" where
  "split_sql_queries sql_content =
     (case process_lines init_state (split_on (CHR ''\<newline>'') sql_content) of
        Inl e \<Rightarrow> Inl e
      | Inr st \<Rightarrow> Inr (finish st))"

subsection \<open>Notions used in the statements and proofs\<close>

text \<open>A statement is trimmed when it is not empty and has no white space at either end.\<close>

definition trimmed :: "string \<Rightarrow> bool" where
  "trimmed s = (s \<noteq> [] \<and> \<not> isspace (hd s) \<and> \<not> isspace (last s))"

text \<open>\<open>has_pair a b s\<close>: the character \<open>a\<close> stands directly before \<open>b\<close> somewhere in \<open>s\<close>.\<close>

fun has_pair :: "char \<Rightarrow> char \<Rightarrow> string \<Rightarrow> bool" where
  "has_pair a b (x # y # s) = ((x = a \<and> y = b) \<or> has_pair a b (y # s))"
| "has_pair a b [x] = False"
| "has_pair a b [] = False"

text \<open>
  The two string flags as a pair, and the change a character makes to them while no comment
  is open: the first branch of the inner loop.
\<close>

definition flags :: "scan_state \<Rightarrow> bool \<times> char option" where
  "flags st = (in_string st, string_char st)"

definition set_flags :: "scan_state \<Rightarrow> bool \<times> char option \<Rightarrow> scan_state" where
  "set_flags st f = st\<lparr>in_string := fst f, string_char := snd f\<rparr>"

definition is_quote :: "char \<Rightarrow> bool" where
  "is_quote c = (c = CHR 0x27 \<or> c = CHR 0x22)"

definition quote_step :: "bool \<times> char option \<Rightarrow> char \<Rightarrow> bool \<times> char option" where
  "quote_step f c =
     (if is_quote c then
        (if fst f \<and> Some c = snd f then (False, None)
         else if \<not> fst f then (True, Some c)
         else f)
      else f)"

definition flags_after :: "bool \<times> char option \<Rightarrow> string \<Rightarrow> bool \<times> char option" where
  "flags_after f t = foldl quote_step f t"

text \<open>The two-character comment markers \<open>--\<close>, \<open>*/\<close> and \<open>/*\<close>.\<close>

definition marker :: "char \<Rightarrow> char \<Rightarrow> bool" where
  "marker c d =
     ((c = CHR ''-'' \<and> d = CHR ''-'') \<or> (c = CHR ''*'' \<and> d = CHR ''/'')
      \<or> (c = CHR ''/'' \<and> d = CHR ''*''))"

text \<open>
  \<open>event f c cs\<close>: outside a string literal, the character \<open>c\<close> followed by the text \<open>cs\<close> is
  a delimiter or starts a comment marker. \<open>clean f t rest\<close>: scanned with the string flags
  \<open>f\<close> and no comment open, the text \<open>t\<close> followed by \<open>rest\<close> has no such character.
\<close>

definition event :: "bool \<times> char option \<Rightarrow> char \<Rightarrow> string \<Rightarrow> bool" where
  "event f c cs = (\<not> fst f \<and> (c = CHR '';'' \<or> (cs \<noteq> [] \<and> marker c (hd cs))))"

fun clean :: "bool \<times> char option \<Rightarrow> string \<Rightarrow> string \<Rightarrow> bool" where
  "clean f [] rest = True"
| "clean f (c # cs) rest = (\<not> event f c (cs @ rest) \<and> clean (quote_step f c) cs rest)"

text \<open>A following text is safe when its first character cannot complete a comment marker.\<close>

definition safe :: "string \<Rightarrow> bool" where
  "safe r = (r = [] \<or> (hd r \<noteq> CHR ''-'' \<and> hd r \<noteq> CHR ''/'' \<and> hd r \<noteq> CHR ''*''))"

text \<open>A text is plain when it has no quote character and no comment marker.\<close>

definition plain :: "string \<Rightarrow> bool" where
  "plain s =
     (CHR 0x27 \<notin> set s \<and> CHR 0x22 \<notin> set s \<and> \<not> has_pair (CHR ''-'') (CHR ''-'') s
      \<and> \<not> has_pair (CHR ''/'') (CHR ''*'') s \<and> \<not> has_pair (CHR ''*'') (CHR ''/'') s)"

text \<open>
  The reference of the specification for scripts without quotes and comments: split on
  \<open>;\<close>, trim each piece, drop the empty pieces.
\<close>

definition reference_split :: "string \<Rightarrow> string list" where
  "reference_split s = filter (\<lambda>p. p \<noteq> []) (map strip (split_on (CHR '';'') s))"

text \<open>
  The script on one line: every line trimmed, the blank lines dropped, the others joined by
  single spaces.
\<close>

definition join_lines :: "string \<Rightarrow> string" where
  "join_lines s =
     join '' '' (filter (\<lambda>l. l \<noteq> []) (map strip (split_on (CHR ''\<newline>'') s)))"

text \<open>
  \<open>resplits s\<close>: the statement \<open>s\<close> with a delimiter appended is split into \<open>s\<close> alone.
\<close>

definition resplits :: "string \<Rightarrow> bool" where
  "resplits s = (split_sql_queries (s @ '';'') = Inr [s])"

text \<open>
  A lexical reading of a text that does not depend on the scanner. A position is in code,
  inside a string literal opened by a quote character, or inside a block comment. In code a
  quote opens a literal, \<open>;\<close> is a delimiter and \<open>/*\<close> opens a block comment. In a literal
  only the quote that opened it counts, and closes it. In a block comment only \<open>*/\<close> counts,
  and closes it. A text is irregular, \<open>Bad\<close>, where it has \<open>--\<close> or \<open>*/\<close> in code, or \<open>--\<close> or
  \<open>/*\<close> inside a block comment. The look-ahead \<open>n\<close> is the text after the character \<open>c\<close>.
\<close>

datatype lexstate = Code | Lit char | Block

datatype action = Move1 lexstate | Move2 lexstate | Delim | Bad

definition token :: "lexstate \<Rightarrow> char \<Rightarrow> string \<Rightarrow> action" where
  "token s c n =
     (case s of
        Lit q \<Rightarrow> Move1 (if c = q \<and> is_quote c then Code else Lit q)
      | Code \<Rightarrow>
          if is_quote c then Move1 (Lit c)
          else if c = CHR '';'' then Delim
          else if n \<noteq> [] \<and> marker c (hd n) then (if c = CHR ''/'' then Move2 Block else Bad)
          else Move1 Code
      | Block \<Rightarrow>
          if n \<noteq> [] \<and> marker c (hd n) then (if c = CHR ''*'' then Move2 Code else Bad)
          else Move1 Block)"

text \<open>
  \<open>lexer d s t rest\<close> reads the text \<open>t\<close>, which \<open>rest\<close> follows, from the state \<open>s\<close>. It gives
  the state after \<open>t\<close>, or \<open>None\<close> when \<open>t\<close> is irregular or its last character starts a marker
  that \<open>rest\<close> completes. With \<open>d\<close> false a delimiter in code is refused as well: \<open>t\<close> is then
  text of a single statement.
\<close>

function lexer :: "bool \<Rightarrow> lexstate \<Rightarrow> string \<Rightarrow> string \<Rightarrow> lexstate option" where
  "lexer d s [] rest = Some s"
| "lexer d s (c # cs) rest =
     (case token s c (cs @ rest) of
        Bad \<Rightarrow> None
      | Delim \<Rightarrow> if d then lexer d Code cs rest else None
      | Move1 s' \<Rightarrow> lexer d s' cs rest
      | Move2 s' \<Rightarrow> if cs = [] then None else lexer d s' (tl cs) rest)"
  by pat_completeness auto
termination
  by (relation "measure (\<lambda>(d, s, t, rest). length t)") auto

text \<open>
  The lexical reading of a script, line by line, each line trimmed. Blank lines are passed
  over. A line that starts with \<open>--\<close> is a comment line in code and irregular inside a
  literal; a literal may run over several lines. A block comment is closed on the line that
  opens it or is not closed at all: once a line has ended inside a block comment, no later
  line may hold \<open>*/\<close>. The result is the state at the end of the script, or \<open>None\<close> for an
  irregular script.
\<close>

fun lex_lines :: "lexstate \<Rightarrow> string list \<Rightarrow> lexstate option" where
  "lex_lines s [] = Some s"
| "lex_lines s (l # ls) =
     (if s = Block then
        (if list_ex (has_pair (CHR ''*'') (CHR ''/'')) (l # ls) then None else Some Block)
      else if strip l = [] then lex_lines s ls
      else if startswith (strip l) ''--'' then (if s = Code then lex_lines s ls else None)
      else (case lexer True s (strip l) [] of None \<Rightarrow> None | Some s' \<Rightarrow> lex_lines s' ls))"

text \<open>
  The flags of the scanner that stand for a lexical state: \<open>agrees st s\<close> when the scanner
  state \<open>st\<close> has them, and \<open>put st s\<close> sets them.
\<close>

definition enc :: "lexstate \<Rightarrow> bool \<times> char option \<times> bool" where
  "enc s = (case s of Code \<Rightarrow> (False, None, False) | Lit q \<Rightarrow> (True, Some q, False)
            | Block \<Rightarrow> (False, None, True))"

definition agrees :: "scan_state \<Rightarrow> lexstate \<Rightarrow> bool" where
  "agrees st s = ((in_string st, string_char st, in_comment st) = enc s)"

definition put :: "scan_state \<Rightarrow> lexstate \<Rightarrow> scan_state" where
  "put st s = st\<lparr>in_string := fst (enc s), string_char := fst (snd (enc s)),
                 in_comment := snd (snd (enc s))\<rparr>"

text \<open>
  \<open>scanned cq piece rest s\<close>: the statement accumulated so far, the parts \<open>cq\<close> and the scanned
  piece of the present line joined by spaces, is regular text of one statement when \<open>rest\<close>
  follows, ends in the state \<open>s\<close>, and has no line break. \<open>lines_ok st s\<close> is the invariant of
  the outer loop on a regular script: every statement emitted so far is split into itself
  again, the flags stand for the state \<open>s\<close>, and outside a block comment the accumulated
  parts, joined, are regular text of one statement that ends in \<open>s\<close>.
\<close>

definition scanned :: "string list \<Rightarrow> string \<Rightarrow> string \<Rightarrow> lexstate \<Rightarrow> bool" where
  "scanned cq piece rest s =
     (lexer False Code (join '' '' (cq @ [piece])) rest = Some s
      \<and> CHR ''\<newline>'' \<notin> set piece \<and> CHR ''\<newline>'' \<notin> set rest
      \<and> (\<forall>p\<in>set cq. CHR ''\<newline>'' \<notin> set p))"

definition lines_ok :: "scan_state \<Rightarrow> lexstate \<Rightarrow> bool" where
  "lines_ok st s =
     ((\<forall>q\<in>set (queries st). resplits q) \<and> agrees st s
      \<and> (s \<noteq> Block \<longrightarrow>
           lexer False Code (join '' '' (current_query st)) [] = Some s
           \<and> (\<forall>p\<in>set (current_query st). CHR ''\<newline>'' \<notin> set p)))"

section \<open>Basic facts\<close>

declare scan_line.simps [simp del]

lemma index_in_range: "i < length line \<Longrightarrow> index line i = Inr (line ! i)"
  by (simp add: index_def)

text \<open>One round of the inner loop, with the bound of the index discharged.\<close>

lemma scan_line_end: "\<not> i < length line \<Longrightarrow> scan_line st line i = Inr (st, line)"
  by (subst scan_line.simps) simp

lemma scan_line_step:
  assumes "i < length line"
  shows "scan_line st line i =
     (if (line ! i = CHR 0x27 \<or> line ! i = CHR 0x22) \<and> \<not> in_comment st then
        (if in_string st \<and> Some (line ! i) = string_char st then
           scan_line (st\<lparr>in_string := False, string_char := None\<rparr>) line (Suc i)
         else if \<not> in_string st then
           scan_line (st\<lparr>in_string := True, string_char := Some (line ! i)\<rparr>) line (Suc i)
         else scan_line st line (Suc i))
      else if line ! i = CHR ''-'' \<and> next_is line i (CHR ''-'') \<and> \<not> in_string st then
        Inr (st\<lparr>in_comment := True\<rparr>, line)
      else if line ! i = CHR ''*'' \<and> next_is line i (CHR ''/'') \<and> \<not> in_string st then
        scan_line (st\<lparr>in_comment := False\<rparr>) line (Suc (Suc i))
      else if line ! i = CHR ''/'' \<and> next_is line i (CHR ''*'') \<and> \<not> in_string st then
        scan_line (st\<lparr>in_comment := True\<rparr>) line (Suc (Suc i))
      else if line ! i = CHR '';'' \<and> \<not> in_string st \<and> \<not> in_comment st then
        scan_line (emit st (take i line)) (drop (Suc i) line) 0
      else scan_line st line (Suc i))"
  using assms by (subst scan_line.simps) (simp add: index_in_range)

lemma scan_line_total: "\<exists>r. scan_line st line i = Inr r"
proof (induction "length line - i" arbitrary: st line i rule: less_induct)
  case less
  show ?case
  proof (cases "i < length line")
    case False
    then show ?thesis by (simp add: scan_line_end)
  next
    case True
    have a: "\<exists>r. scan_line st' line (Suc i) = Inr r" for st'
      using True by (intro less) simp
    have b: "\<exists>r. scan_line st' line (Suc (Suc i)) = Inr r" for st'
      using True by (intro less) simp
    have c: "\<exists>r. scan_line st' (drop (Suc i) line) 0 = Inr r" for st'
      using True by (intro less) simp
    show ?thesis
      unfolding scan_line_step [OF True] using a b c by simp
  qed
qed

lemma process_lines_skip:
  "strip l = [] \<or> startswith (strip l) ''--'' \<Longrightarrow> process_lines st (l # ls) = process_lines st ls"
  by (auto simp: Let_def)

lemma process_lines_scan:
  assumes "strip l \<noteq> []" "\<not> startswith (strip l) ''--''"
    and "scan_line st (strip l) 0 = Inr (s1, l1)"
  shows "process_lines st (l # ls) =
     process_lines (if in_comment s1 then s1 else s1\<lparr>current_query := current_query s1 @ [l1]\<rparr>) ls"
  using assms by (simp add: Let_def)

declare process_lines.simps(2) [simp del]

lemma process_lines_total: "\<exists>st'. process_lines st ls = Inr st'"
proof (induction ls arbitrary: st)
  case Nil
  show ?case by simp
next
  case (Cons l ls)
  show ?case
  proof (cases "strip l = [] \<or> startswith (strip l) ''--''")
    case True
    then show ?thesis using Cons.IH by (simp add: process_lines_skip)
  next
    case False
    obtain s1 l1 where r: "scan_line st (strip l) 0 = Inr (s1, l1)"
      using scan_line_total [of st "strip l" 0] by auto
    show ?thesis
      using False Cons.IH by (simp add: process_lines_scan [OF _ _ r])
  qed
qed

lemma strip_trimmed:
  assumes "strip s \<noteq> []"
  shows "trimmed (strip s)"
proof -
  define a where "a = dropWhile isspace s"
  define b where "b = dropWhile isspace (rev a)"
  have sb: "strip s = rev b"
    by (simp add: strip_def a_def b_def)
  have bne: "b \<noteq> []"
    using assms sb by simp
  then have ane: "a \<noteq> []"
    by (auto simp: b_def)
  have hb: "\<not> isspace (hd b)"
    using bne unfolding b_def by (rule hd_dropWhile)
  have ha: "\<not> isspace (hd a)"
    using ane unfolding a_def by (rule hd_dropWhile)
  have "rev a = takeWhile isspace (rev a) @ b"
    by (simp add: b_def)
  then have "last (rev a) = last b"
    using bne by (metis last_appendR)
  then have lb: "last b = hd a"
    using ane by (simp add: last_rev)
  show ?thesis
    using bne hb ha lb by (simp add: trimmed_def sb hd_rev last_rev)
qed

lemma emit_trimmed:
  "\<forall>q\<in>set (queries st). trimmed q \<Longrightarrow> \<forall>q\<in>set (queries (emit st p)). trimmed q"
  by (simp add: emit_def Let_def strip_trimmed)

lemma emit_flags [simp]:
  "in_string (emit st p) = in_string st"
  "string_char (emit st p) = string_char st"
  "in_comment (emit st p) = in_comment st"
  "current_query (emit st p) = []"
  by (simp_all add: emit_def Let_def)

lemma scan_line_trimmed:
  "scan_line st line i = Inr (st', l') \<Longrightarrow> \<forall>q\<in>set (queries st). trimmed q
   \<Longrightarrow> \<forall>q\<in>set (queries st'). trimmed q"
proof (induction "length line - i" arbitrary: st line i rule: less_induct)
  case less
  show ?case
  proof (cases "i < length line")
    case False
    then show ?thesis using less.prems by (simp add: scan_line_end)
  next
    case True
    have a: "scan_line s line (Suc i) = Inr (st', l') \<Longrightarrow> queries s = queries st
             \<Longrightarrow> ?thesis" for s
      using True less.prems(2) by (intro less.hyps [of line "Suc i" s]) simp_all
    have b: "scan_line s line (Suc (Suc i)) = Inr (st', l') \<Longrightarrow> queries s = queries st
             \<Longrightarrow> ?thesis" for s
      using True less.prems(2) by (intro less.hyps [of line "Suc (Suc i)" s]) simp_all
    have c: "scan_line (emit st (take i line)) (drop (Suc i) line) 0 = Inr (st', l')
             \<Longrightarrow> ?thesis"
      using True emit_trimmed [OF less.prems(2)]
      by (intro less.hyps [of "drop (Suc i) line" 0 "emit st (take i line)"]) simp_all
    show ?thesis
      using less.prems a b c unfolding scan_line_step [OF True]
      by (auto split: if_splits)
  qed
qed

lemma process_lines_trimmed:
  "process_lines st ls = Inr st' \<Longrightarrow> \<forall>q\<in>set (queries st). trimmed q
   \<Longrightarrow> \<forall>q\<in>set (queries st'). trimmed q"
proof (induction ls arbitrary: st)
  case Nil
  then show ?case by simp
next
  case (Cons l ls)
  show ?case
  proof (cases "strip l = [] \<or> startswith (strip l) ''--''")
    case True
    then show ?thesis using Cons by (simp add: process_lines_skip)
  next
    case False
    obtain s1 l1 where r: "scan_line st (strip l) 0 = Inr (s1, l1)"
      using scan_line_total [of st "strip l" 0] by auto
    have t1: "\<forall>q\<in>set (queries s1). trimmed q"
      using scan_line_trimmed [OF r Cons.prems(2)] .
    define s2 where "s2 = (if in_comment s1 then s1
                           else s1\<lparr>current_query := current_query s1 @ [l1]\<rparr>)"
    have "process_lines s2 ls = Inr st'"
      using Cons.prems(1) False by (simp add: process_lines_scan [OF _ _ r] s2_def)
    moreover have "\<forall>q\<in>set (queries s2). trimmed q"
      using t1 by (simp add: s2_def)
    ultimately show ?thesis by (rule Cons.IH)
  qed
qed

lemma finish_trimmed:
  "\<forall>q\<in>set (queries st). trimmed q \<Longrightarrow> \<forall>q\<in>set (finish st). trimmed q"
  by (simp add: finish_def Let_def strip_trimmed)

lemma has_pair_append:
  "has_pair a b (xs @ ys) =
     (has_pair a b xs \<or> has_pair a b ys \<or> (xs \<noteq> [] \<and> ys \<noteq> [] \<and> last xs = a \<and> hd ys = b))"
proof (induction a b xs rule: has_pair.induct)
  case (1 a b x y s)
  then show ?case by auto
next
  case (2 a b x)
  then show ?case by (cases ys) auto
next
  case (3 a b)
  then show ?case by simp
qed

lemma has_pair_drop: "has_pair a b (drop n s) \<Longrightarrow> has_pair a b s"
  using has_pair_append [of a b "take n s" "drop n s"] by simp

lemma has_pair_take: "has_pair a b (take n s) \<Longrightarrow> has_pair a b s"
  using has_pair_append [of a b "take n s" "drop n s"] by simp

lemma has_pair_at:
  assumes "i < length s" "s ! i = a" "next_is s i b"
  shows "has_pair a b (drop i s)"
proof -
  have 1: "drop i s = s ! i # drop (Suc i) s"
    using assms(1) by (rule Cons_nth_drop_Suc [symmetric])
  have "Suc i < length s"
    using assms(3) by (simp add: next_is_def)
  then have 2: "drop (Suc i) s = s ! Suc i # drop (Suc (Suc i)) s"
    by (rule Cons_nth_drop_Suc [symmetric])
  have "drop i s = a # b # drop (Suc (Suc i)) s"
    using 1 2 assms by (simp add: next_is_def)
  then show ?thesis
    by simp
qed

lemma strip_decomp:
  "\<exists>u v. s = u @ strip s @ v \<and> (\<forall>c\<in>set u. isspace c) \<and> (\<forall>c\<in>set v. isspace c)"
proof -
  define a where "a = dropWhile isspace s"
  have 1: "s = takeWhile isspace s @ a"
    by (simp add: a_def)
  have "rev a = takeWhile isspace (rev a) @ dropWhile isspace (rev a)"
    by simp
  then have "rev (rev a) = rev (takeWhile isspace (rev a) @ dropWhile isspace (rev a))"
    by (rule arg_cong)
  then have "a = rev (dropWhile isspace (rev a)) @ rev (takeWhile isspace (rev a))"
    by (simp only: rev_rev_ident rev_append)
  then have 2: "a = strip s @ rev (takeWhile isspace (rev a))"
    by (simp only: strip_def a_def)
  have "s = takeWhile isspace s @ strip s @ rev (takeWhile isspace (rev a))"
    using 1 2 by simp
  moreover have "\<forall>c\<in>set (takeWhile isspace s). isspace c"
    by (auto dest: set_takeWhileD)
  moreover have "\<forall>c\<in>set (rev (takeWhile isspace (rev a))). isspace c"
    by (auto dest: set_takeWhileD)
  ultimately show ?thesis by blast
qed

lemma has_pair_strip: "has_pair a b (strip s) \<Longrightarrow> has_pair a b s"
proof -
  assume h: "has_pair a b (strip s)"
  obtain u v where "s = u @ strip s @ v"
    using strip_decomp by blast
  then have "has_pair a b s = has_pair a b (u @ strip s @ v)" by simp
  then show ?thesis using h by (simp add: has_pair_append)
qed

lemma in_comment_upd: "in_comment st \<Longrightarrow> st\<lparr>in_comment := True\<rparr> = st"
  by (cases st) simp

lemma scan_line_in_comment:
  "in_comment st \<Longrightarrow> \<not> has_pair (CHR ''*'') (CHR ''/'') (drop i line)
   \<Longrightarrow> scan_line st line i = Inr (st, line)"
proof (induction "length line - i" arbitrary: i rule: less_induct)
  case less
  show ?case
  proof (cases "i < length line")
    case False
    then show ?thesis by (simp add: scan_line_end)
  next
    case True
    have np1: "\<not> has_pair (CHR ''*'') (CHR ''/'') (drop (Suc i) line)"
      using less.prems(2) has_pair_drop [of _ _ 1 "drop i line"] by auto
    have np2: "\<not> has_pair (CHR ''*'') (CHR ''/'') (drop (Suc (Suc i)) line)"
      using less.prems(2) has_pair_drop [of _ _ 2 "drop i line"] by auto
    have a: "scan_line st line (Suc i) = Inr (st, line)"
      using True less.prems(1) np1 by (intro less.hyps) simp_all
    have b: "scan_line st line (Suc (Suc i)) = Inr (st, line)"
      using True less.prems(1) np2 by (intro less.hyps) simp_all
    have c: "\<not> (line ! i = CHR ''*'' \<and> next_is line i (CHR ''/''))"
      using has_pair_at [OF True, of "CHR ''*''" "CHR ''/''"] less.prems(2) by blast
    show ?thesis
      unfolding scan_line_step [OF True]
      using a b c less.prems(1) by (auto simp: in_comment_upd)
  qed
qed

lemma process_lines_in_comment_step:
  assumes "in_comment st" "\<not> has_pair (CHR ''*'') (CHR ''/'') l"
  shows "process_lines st (l # ls) = process_lines st ls"
proof (cases "strip l = [] \<or> startswith (strip l) ''--''")
  case True
  then show ?thesis by (rule process_lines_skip)
next
  case False
  have "\<not> has_pair (CHR ''*'') (CHR ''/'') (drop 0 (strip l))"
    using assms(2) has_pair_strip by auto
  then have "scan_line st (strip l) 0 = Inr (st, strip l)"
    using assms(1) by (intro scan_line_in_comment) simp_all
  then show ?thesis
    using False assms(1) by (simp add: process_lines_scan)
qed

lemma process_lines_in_comment:
  assumes "in_comment st" "\<forall>l\<in>set ls. \<not> has_pair (CHR ''*'') (CHR ''/'') l"
  shows "process_lines st ls = Inr st"
  using assms(2)
proof (induction ls)
  case Nil
  show ?case by simp
next
  case (Cons l ls)
  then show ?case
    using process_lines_in_comment_step [OF assms(1), of l ls] by simp
qed

section \<open>The claims on single inputs and on all inputs\<close>

text \<open>
  Claim C1. For every input string \<open>split_sql_queries\<close> returns a list of statements: the
  inner loop terminates (the termination proof of \<open>scan_line\<close>), no index is read out of
  range, so no error is raised, and the empty input gives the empty list.
\<close>

theorem split_total:
  "(\<exists>qs. split_sql_queries sql_content = Inr qs) \<and> split_sql_queries [] = Inr []"
proof
  obtain st where "process_lines init_state (split_on (CHR ''\<newline>'') sql_content) = Inr st"
    using process_lines_total by blast
  then show "\<exists>qs. split_sql_queries sql_content = Inr qs"
    by (simp add: split_sql_queries_def)
next
  show "split_sql_queries [] = Inr []"
    by code_simp
qed

text \<open>
  Claim C2. The specification expects
  \<open>SELECT * FROM t -- comment\<newline>WHERE id = 1;\<close> to give the single statement
  \<open>SELECT * FROM t WHERE id = 1\<close>. The code returns no statement at all: the flag set at the
  \<open>--\<close> is still set on the second line, whose delimiter is therefore ignored.
\<close>

theorem line_comment_scenario:
  "split_sql_queries ''SELECT * FROM t -- comment\<newline>WHERE id = 1;'' = Inr []"
  by code_simp

text \<open>
  Claim C3. The specification expects that no character inside a string literal is taken for
  a comment marker. A line of a multi-line literal that starts with \<open>--\<close> is skipped as a
  comment line all the same: the second line below is lost from the statement.
\<close>

theorem comment_line_inside_literal:
  "split_sql_queries ''SELECT 'x\<newline>-- y\<newline>' AS c;'' = Inr [''SELECT 'x ' AS c'']"
  by code_simp

text \<open>
  Claim C4, as stated: \<open>/* ; ; */ SELECT 2;\<close> gives the one statement \<open>SELECT 2\<close>.
  The code does not return that list.
\<close>

theorem block_comment_counterexample:
  "split_sql_queries ''/* ; ; */ SELECT 2;'' \<noteq> Inr [''SELECT 2'']"
  by code_simp

text \<open>
  Claim C4, amended. The input \<open>/* ; ; */ SELECT 2;\<close>, with the comment on one line, gives
  exactly one statement: the delimiters inside the block comment do not split it, and the
  statement is the text before the last delimiter with the comment and its markers kept.
  Nothing is stated on a comment that runs over several lines.
\<close>

theorem block_comment_scenario:
  "split_sql_queries ''/* ; ; */ SELECT 2;'' = Inr [''/* ; ; */ SELECT 2'']"
  by code_simp

text \<open>
  Claim C6, as stated: an input that ends inside a block comment has its accumulated text
  flushed as a last statement. On \<open>SELECT 1\<newline>/* abc\<close> the loop ends with
  \<open>SELECT 1\<close> accumulated and a comment open, and nothing is returned.
\<close>

theorem unterminated_comment_counterexample:
  "process_lines init_state (split_on (CHR ''\<newline>'') ''SELECT 1\<newline>/* abc'') =
     Inr \<lparr>queries = [], current_query = [''SELECT 1''], in_string = False,
          string_char = None, in_comment = True\<rparr>
   \<and> split_sql_queries ''SELECT 1\<newline>/* abc'' = Inr []"
  by code_simp

text \<open>
  Claim C9. Every statement returned by \<open>split_sql_queries\<close> is non-empty and has no white
  space at its start or end; statements that are empty after stripping are never emitted, so
  the input \<open>;;\<close> gives the empty list.
\<close>

theorem split_statements_trimmed:
  "(\<forall>sql qs. split_sql_queries sql = Inr qs \<longrightarrow>
      (\<forall>q\<in>set qs. q \<noteq> [] \<and> \<not> isspace (hd q) \<and> \<not> isspace (last q)))
   \<and> split_sql_queries '';;'' = Inr []"
proof (intro conjI allI impI)
  fix sql qs
  assume h: "split_sql_queries sql = Inr qs"
  obtain st where st: "process_lines init_state (split_on (CHR ''\<newline>'') sql) = Inr st"
    using process_lines_total by blast
  have "\<forall>q\<in>set (queries st). trimmed q"
    using process_lines_trimmed [OF st] by (simp add: init_state_def)
  then have "\<forall>q\<in>set (finish st). trimmed q"
    by (rule finish_trimmed)
  moreover have "qs = finish st"
    using h st by (simp add: split_sql_queries_def)
  ultimately show "\<forall>q\<in>set qs. q \<noteq> [] \<and> \<not> isspace (hd q) \<and> \<not> isspace (last q)"
    by (simp add: trimmed_def)
next
  show "split_sql_queries '';;'' = Inr []"
    by code_simp
qed

theorem split_statements_trimmed_witness:
  "split_sql_queries ''SELECT 1; SELECT 2; '' = Inr [''SELECT 1'', ''SELECT 2'']
   \<and> ''SELECT 1'' \<noteq> [] \<and> \<not> isspace (hd ''SELECT 1'') \<and> \<not> isspace (last ''SELECT 1'')
   \<and> ''SELECT 2'' \<noteq> [] \<and> \<not> isspace (hd ''SELECT 2'') \<and> \<not> isspace (last ''SELECT 2'')"
proof -
  have e: "split_sql_queries ''SELECT 1; SELECT 2; '' = Inr [''SELECT 1'', ''SELECT 2'']"
    by code_simp
  have "\<forall>q\<in>set [''SELECT 1'', ''SELECT 2''].
          q \<noteq> [] \<and> \<not> isspace (hd q) \<and> \<not> isspace (last q)"
    using e split_statements_trimmed by blast
  then show ?thesis
    using e by simp
qed

text \<open>
  Claim C10. A \<open>--\<close> met inside a line, outside a string literal, ends the scan of the line
  with \<open>in_comment\<close> set, and nothing of the line is added to the current statement. The
  flag stays set at the end of the line: while it is set, a line without \<open>*/\<close> leaves the
  whole state as it is, so no statement is emitted and no text is accumulated, and when no
  later line has a \<open>*/\<close> the run ends with the statements emitted before. Only the
  \<open>*/\<close> branch clears the flag.
\<close>

theorem line_comment_state_persists:
  "(\<forall>st line i. i < length line \<and> line ! i = CHR ''-'' \<and> next_is line i (CHR ''-'')
        \<and> \<not> in_string st \<longrightarrow>
        scan_line st line i = Inr (st\<lparr>in_comment := True\<rparr>, line))
   \<and> (\<forall>st l ls s1 l1. strip l \<noteq> [] \<and> \<not> startswith (strip l) ''--''
        \<and> scan_line st (strip l) 0 = Inr (s1, l1) \<and> in_comment s1 \<longrightarrow>
        process_lines st (l # ls) = process_lines s1 ls)
   \<and> (\<forall>st l ls. in_comment st \<and> \<not> has_pair (CHR ''*'') (CHR ''/'') l \<longrightarrow>
        process_lines st (l # ls) = process_lines st ls)
   \<and> (\<forall>st ls. in_comment st \<and> (\<forall>l\<in>set ls. \<not> has_pair (CHR ''*'') (CHR ''/'') l) \<longrightarrow>
        process_lines st ls = Inr st \<and> finish st = queries st)
   \<and> (\<forall>st line i. i < length line \<and> line ! i = CHR ''*'' \<and> next_is line i (CHR ''/'')
        \<and> \<not> in_string st \<longrightarrow>
        scan_line st line i = scan_line (st\<lparr>in_comment := False\<rparr>) line (Suc (Suc i)))"
proof -
  have 0: "scan_line st line i = scan_line (st\<lparr>in_comment := False\<rparr>) line (Suc (Suc i))"
    if "i < length line \<and> line ! i = CHR ''*'' \<and> next_is line i (CHR ''/'') \<and> \<not> in_string st"
    for st :: scan_state and line i
    using that by (simp add: scan_line_step)
  have 1: "scan_line st line i = Inr (st\<lparr>in_comment := True\<rparr>, line)"
    if "i < length line \<and> line ! i = CHR ''-'' \<and> next_is line i (CHR ''-'') \<and> \<not> in_string st"
    for st :: scan_state and line i
    using that by (simp add: scan_line_step)
  have 2: "process_lines st (l # ls) = process_lines s1 ls"
    if "strip l \<noteq> [] \<and> \<not> startswith (strip l) ''--''
        \<and> scan_line st (strip l) 0 = Inr (s1, l1) \<and> in_comment s1"
    for st :: scan_state and l ls s1 l1
    using that by (simp add: process_lines_scan)
  have 3: "finish st = queries st" if "in_comment st" for st :: scan_state
    using that by (simp add: finish_def)
  have 4: "process_lines st (l # ls) = process_lines st ls"
    if "in_comment st \<and> \<not> has_pair (CHR ''*'') (CHR ''/'') l" for st :: scan_state and l ls
    using that process_lines_in_comment_step by blast
  have 5: "process_lines st ls = Inr st \<and> finish st = queries st"
    if "in_comment st \<and> (\<forall>l\<in>set ls. \<not> has_pair (CHR ''*'') (CHR ''/'') l)"
    for st :: scan_state and ls
    using that 3 process_lines_in_comment by blast
  show ?thesis
    apply (intro conjI allI)
    subgoal by (rule impI) (erule 1)
    subgoal by (rule impI) (erule 2)
    subgoal by (rule impI) (erule 4)
    subgoal by (rule impI) (erule 5)
    subgoal by (rule impI) (erule 0)
    done
qed

theorem line_comment_state_persists_witness:
  "scan_line init_state ''a -- b'' 2 = Inr (init_state\<lparr>in_comment := True\<rparr>, ''a -- b'')
   \<and> process_lines init_state [''a -- b'', ''c;''] = Inr (init_state\<lparr>in_comment := True\<rparr>)
   \<and> finish (init_state\<lparr>in_comment := True\<rparr>) = []
   \<and> scan_line (init_state\<lparr>in_comment := True\<rparr>) ''*/'' 0
       = scan_line (init_state\<lparr>in_comment := True, in_comment := False\<rparr>) ''*/'' (Suc (Suc 0))"
proof -
  have d: "0 < length ''*/'' \<and> ''*/'' ! 0 = CHR ''*'' \<and> next_is ''*/'' 0 (CHR ''/'')
        \<and> \<not> in_string (init_state\<lparr>in_comment := True\<rparr>)"
    by (simp add: next_is_def init_state_def)
  have 4: "scan_line (init_state\<lparr>in_comment := True\<rparr>) ''*/'' 0
       = scan_line (init_state\<lparr>in_comment := True, in_comment := False\<rparr>) ''*/'' (Suc (Suc 0))"
    using d line_comment_state_persists by blast
  have a: "2 < length ''a -- b'' \<and> ''a -- b'' ! 2 = CHR ''-'' \<and> next_is ''a -- b'' 2 (CHR ''-'')
        \<and> \<not> in_string init_state"
    by (simp add: next_is_def init_state_def)
  have 1: "scan_line init_state ''a -- b'' 2 = Inr (init_state\<lparr>in_comment := True\<rparr>, ''a -- b'')"
    using a line_comment_state_persists by blast
  have b: "strip ''a -- b'' \<noteq> [] \<and> \<not> startswith (strip ''a -- b'') ''--''
        \<and> scan_line init_state (strip ''a -- b'') 0
            = Inr (init_state\<lparr>in_comment := True\<rparr>, ''a -- b'')
        \<and> in_comment (init_state\<lparr>in_comment := True\<rparr>)"
    by code_simp
  have 2: "process_lines init_state [''a -- b'', ''c;'']
             = process_lines (init_state\<lparr>in_comment := True\<rparr>) [''c;'']"
    using b line_comment_state_persists by blast
  have c: "in_comment (init_state\<lparr>in_comment := True\<rparr>)
        \<and> (\<forall>l\<in>set [''c;'']. \<not> has_pair (CHR ''*'') (CHR ''/'') l)"
    by simp
  have 3: "process_lines (init_state\<lparr>in_comment := True\<rparr>) [''c;'']
             = Inr (init_state\<lparr>in_comment := True\<rparr>)
           \<and> finish (init_state\<lparr>in_comment := True\<rparr>) = queries (init_state\<lparr>in_comment := True\<rparr>)"
    using c line_comment_state_persists by blast
  show ?thesis
    using 1 2 3 4 by (simp add: init_state_def)
qed

section \<open>Scanning a text without delimiters and comment markers\<close>

lemma set_flags_id [simp]: "set_flags st (flags st) = st"
  by (simp add: set_flags_def flags_def)

lemma flags_set_flags [simp]: "flags (set_flags st f) = f"
  by (simp add: set_flags_def flags_def)

lemma set_flags_simps [simp]:
  "in_comment (set_flags st f) = in_comment st"
  "queries (set_flags st f) = queries st"
  "current_query (set_flags st f) = current_query st"
  "in_string (set_flags st f) = fst f"
  "string_char (set_flags st f) = snd f"
  "set_flags (set_flags st f) g = set_flags st g"
  by (simp_all add: set_flags_def)

lemma drop_Cons_facts:
  assumes "drop i line = c # cs"
  shows "i < length line" "line ! i = c" "drop (Suc i) line = cs"
    "next_is line i d = (cs \<noteq> [] \<and> hd cs = d)"
proof -
  show 1: "i < length line"
    using assms by (cases "i < length line") simp_all
  have 2: "drop i line = line ! i # drop (Suc i) line"
    using 1 by (rule Cons_nth_drop_Suc [symmetric])
  show 3: "line ! i = c" and 4: "drop (Suc i) line = cs"
    using assms 2 by simp_all
  show "next_is line i d = (cs \<noteq> [] \<and> hd cs = d)"
  proof (cases "Suc i < length line")
    case True
    then have "drop (Suc i) line = line ! Suc i # drop (Suc (Suc i)) line"
      by (rule Cons_nth_drop_Suc [symmetric])
    then show ?thesis using True 4 by (auto simp: next_is_def)
  next
    case False
    then show ?thesis using 4 by (auto simp: next_is_def)
  qed
qed

lemma scan_line_plain_step:
  assumes "\<not> in_comment st" "drop i line = c # cs" "\<not> event (flags st) c cs"
  shows "scan_line st line i = scan_line (set_flags st (quote_step (flags st) c)) line (Suc i)"
proof -
  note d = drop_Cons_facts [OF assms(2)]
  note step = scan_line_step [OF d(1), of st, unfolded d(2)]
  show ?thesis
  proof (cases "is_quote c")
    case True
    then have c: "c = CHR 0x27 \<or> c = CHR 0x22"
      by (simp add: is_quote_def)
    consider (qclose) "in_string st" "Some c = string_char st"
      | (qopen) "\<not> in_string st"
      | (qother) "in_string st" "Some c \<noteq> string_char st"
      by blast
    then show ?thesis
    proof cases
      case qclose
      then have "quote_step (flags st) c = (False, None)"
        using True by (simp add: quote_step_def flags_def)
      then show ?thesis
        using c qclose assms(1) by (simp add: step set_flags_def)
    next
      case qopen
      then have "quote_step (flags st) c = (True, Some c)"
        using True by (simp add: quote_step_def flags_def)
      then show ?thesis
        using c qopen assms(1) by (simp add: step set_flags_def)
    next
      case qother
      then have "quote_step (flags st) c = flags st"
        using True by (simp add: quote_step_def flags_def)
      then show ?thesis
        using c qother assms(1) by (simp add: step)
    qed
  next
    case False
    have q: "quote_step (flags st) c = flags st"
      using False by (simp add: quote_step_def)
    have nq: "\<not> (c = CHR 0x27 \<or> c = CHR 0x22)"
      using False by (simp add: is_quote_def)
    have n1: "\<not> (c = CHR ''-'' \<and> next_is line i (CHR ''-'') \<and> \<not> in_string st)"
      using assms(3) by (auto simp: d(4) event_def marker_def flags_def)
    have n2: "\<not> (c = CHR ''*'' \<and> next_is line i (CHR ''/'') \<and> \<not> in_string st)"
      using assms(3) by (auto simp: d(4) event_def marker_def flags_def)
    have n3: "\<not> (c = CHR ''/'' \<and> next_is line i (CHR ''*'') \<and> \<not> in_string st)"
      using assms(3) by (auto simp: d(4) event_def marker_def flags_def)
    have n4: "\<not> (c = CHR '';'' \<and> \<not> in_string st \<and> \<not> in_comment st)"
      using assms(3) by (auto simp: event_def flags_def)
    show ?thesis
      by (simp only: step nq n1 n2 n3 n4 q set_flags_id if_False simp_thms)
  qed
qed

lemma scan_line_delim:
  assumes "\<not> in_comment st" "\<not> in_string st" "drop i line = CHR '';'' # rest"
  shows "scan_line st line i = scan_line (emit st (take i line)) rest 0"
proof -
  note d = drop_Cons_facts [OF assms(3)]
  show ?thesis
    using assms(1,2) d(2) d(3) by (simp add: scan_line_step [OF d(1)])
qed

lemma flags_after_simps [simp]:
  "flags_after f [] = f"
  "flags_after f (c # cs) = flags_after (quote_step f c) cs"
  "flags_after f (a @ b) = flags_after (flags_after f a) b"
  by (simp_all add: flags_after_def)

lemma scan_line_prefix:
  assumes "\<not> in_comment st" "drop i line = t @ rest" "clean (flags st) t rest"
  shows "scan_line st line i =
           scan_line (set_flags st (flags_after (flags st) t)) line (i + length t)"
  using assms
proof (induction t arbitrary: st i)
  case Nil
  then show ?case by simp
next
  case (Cons c cs)
  have d: "drop i line = c # (cs @ rest)"
    using Cons.prems(2) by simp
  have ne: "\<not> event (flags st) c (cs @ rest)" and cl: "clean (quote_step (flags st) c) cs rest"
    using Cons.prems(3) by simp_all
  define st1 where "st1 = set_flags st (quote_step (flags st) c)"
  have 1: "scan_line st line i = scan_line st1 line (Suc i)"
    unfolding st1_def using Cons.prems(1) d ne by (rule scan_line_plain_step)
  have 2: "scan_line st1 line (Suc i) =
             scan_line (set_flags st1 (flags_after (flags st1) cs)) line (Suc i + length cs)"
  proof (rule Cons.IH)
    show "\<not> in_comment st1" using Cons.prems(1) by (simp add: st1_def)
    show "drop (Suc i) line = cs @ rest" using drop_Cons_facts(3) [OF d] .
    show "clean (flags st1) cs rest" using cl by (simp add: st1_def)
  qed
  show ?case
    using 1 2 by (simp add: st1_def)
qed

section \<open>Facts on clean texts\<close>

lemma event_safe: "safe r \<Longrightarrow> event f c r = (\<not> fst f \<and> c = CHR '';'')"
  by (auto simp: event_def safe_def marker_def)

lemma isspace_not_special:
  assumes "isspace c"
  shows "\<not> is_quote c" "c \<noteq> CHR '';''" "c \<noteq> CHR ''-''" "c \<noteq> CHR ''/''" "c \<noteq> CHR ''*''"
    "c \<noteq> CHR 0x27"
  using assms by (auto simp: isspace_def is_quote_def)

lemma safe_space: "isspace c \<Longrightarrow> safe (c # r)"
  by (auto simp: safe_def dest: isspace_not_special)

lemma safe_simps [simp]: "safe []" "safe (CHR '';'' # r)" "safe (CHR 0x27 # r)" "safe (CHR '' '' # r)"
  by (simp_all add: safe_def)

lemma quote_step_space: "isspace c \<Longrightarrow> quote_step f c = f"
  by (simp add: quote_step_def isspace_not_special)

lemma event_space: "isspace c \<Longrightarrow> \<not> event f c cs"
  by (auto simp: event_def marker_def dest: isspace_not_special)

lemma clean_spaces: "\<forall>c\<in>set w. isspace c \<Longrightarrow> clean f w r"
  by (induction w) (simp_all add: quote_step_space event_space)

lemma marker_has_pair:
  "marker c d \<Longrightarrow> has_pair (CHR ''-'') (CHR ''-'') (c # d # s)
     \<or> has_pair (CHR ''/'') (CHR ''*'') (c # d # s) \<or> has_pair (CHR ''*'') (CHR ''/'') (c # d # s)"
  by (auto simp: marker_def)

lemma plain_Cons: "plain (c # cs) \<Longrightarrow> plain cs \<and> \<not> is_quote c \<and> (cs \<noteq> [] \<longrightarrow> \<not> marker c (hd cs))"
proof -
  assume p: "plain (c # cs)"
  have 1: "plain cs"
    using p by (cases cs) (auto simp: plain_def)
  have 2: "\<not> is_quote c"
    using p by (auto simp: plain_def is_quote_def)
  have 3: "cs \<noteq> [] \<longrightarrow> \<not> marker c (hd cs)"
    using p marker_has_pair [of c "hd cs" "tl cs"] by (cases cs) (auto simp: plain_def)
  show ?thesis using 1 2 3 by simp
qed

lemma clean_plain:
  assumes "\<not> fst f" "plain t" "CHR '';'' \<notin> set t" "safe r"
  shows "clean f t r \<and> flags_after f t = f"
  using assms(2,3)
proof (induction t)
  case Nil
  show ?case by simp
next
  case (Cons c cs)
  note p = plain_Cons [OF Cons.prems(1)]
  have q: "quote_step f c = f"
    using p by (simp add: quote_step_def)
  have "\<not> event f c (cs @ r)"
  proof (cases cs)
    case Nil
    then show ?thesis using Cons.prems(2) assms(4) by (auto simp: event_safe)
  next
    case (Cons d ds)
    then show ?thesis using p Cons.prems(2) by (auto simp: event_def)
  qed
  then show ?case
    using Cons p q by simp
qed

section \<open>Facts on \<open>strip\<close>, \<open>split_on\<close> and \<open>join\<close>\<close>

lemma strip_Nil [simp]: "strip [] = []"
  by (simp add: strip_def)

lemma strip_trimmed_id: "trimmed s \<Longrightarrow> strip s = s"
proof -
  assume t: "trimmed s"
  then obtain c cs where s: "s = c # cs" and c: "\<not> isspace c"
    by (cases s) (auto simp: trimmed_def)
  have 1: "dropWhile isspace s = s"
    using s c by simp
  have "rev s \<noteq> [] \<and> \<not> isspace (hd (rev s))"
    using t by (simp add: trimmed_def hd_rev)
  then have 2: "dropWhile isspace (rev s) = rev s"
    by (cases "rev s") auto
  show ?thesis
    by (simp add: strip_def 1 2)
qed

lemma strip_idem [simp]: "strip (strip s) = strip s"
  by (cases "strip s = []") (simp_all add: strip_trimmed strip_trimmed_id)

lemma strip_spaces_left: "\<forall>c\<in>set u. isspace c \<Longrightarrow> strip (u @ s) = strip s"
  by (simp add: strip_def dropWhile_append)

lemma strip_spaces_right: "\<forall>c\<in>set v. isspace c \<Longrightarrow> strip (s @ v) = strip s"
proof -
  assume v: "\<forall>c\<in>set v. isspace c"
  show ?thesis
  proof (cases "\<forall>c\<in>set s. isspace c")
    case True
    have "dropWhile isspace (s @ v) = []"
      using True v by (simp only: dropWhile_eq_Nil_conv set_append) blast
    moreover have "dropWhile isspace s = []"
      using True by (simp only: dropWhile_eq_Nil_conv)
    ultimately show ?thesis
      by (simp only: strip_def)
  next
    case False
    then have a: "dropWhile isspace (s @ v) = dropWhile isspace s @ v"
      by (auto simp: dropWhile_append)
    have "dropWhile isspace (rev v @ rev (dropWhile isspace s))
            = dropWhile isspace (rev (dropWhile isspace s))"
      using v by (simp add: dropWhile_append)
    then show ?thesis
      by (simp only: strip_def a rev_append)
  qed
qed

lemma strip_snoc_nonspace:
  assumes "\<not> isspace c"
  shows "strip (s @ [c]) = dropWhile isspace s @ [c]"
proof -
  have "dropWhile isspace (s @ [c]) = dropWhile isspace s @ [c]"
    using assms by (simp add: dropWhile_append)
  then show ?thesis
    using assms by (simp add: strip_def)
qed

lemma split_on_nonempty [simp]: "split_on sep s \<noteq> []"
  by (induction s) (auto split: list.splits)

lemma split_on_none: "sep \<notin> set s \<Longrightarrow> split_on sep s = [s]"
  by (induction s) auto

lemma split_on_first:
  "sep \<notin> set t \<Longrightarrow> split_on sep (t @ sep # rest) = t # split_on sep rest"
  by (induction t) auto

lemma split_on_free: "\<forall>l\<in>set (split_on sep s). sep \<notin> set l"
  by (induction s) (auto split: list.splits)

lemma semicolon_not_space [simp]: "\<not> isspace (CHR '';'')"
  by (simp add: isspace_def)

section \<open>The statement emitted at a delimiter\<close>

lemma emit_queries:
  "queries (emit st p) =
     (if strip (join '' '' (current_query st @ [p])) \<noteq> []
      then queries st @ [strip (join '' '' (current_query st @ [p]))] else queries st)"
  by (simp add: emit_def Let_def)

section \<open>Stripping a text around a literal\<close>

lemma quote_not_space [simp]: "\<not> isspace (CHR 0x27)"
  by (simp add: isspace_def)

lemma dropWhile_nonspace:
  "\<not> isspace q \<Longrightarrow> dropWhile isspace (a @ q # b) = dropWhile isspace a @ q # b"
  by (induction a) auto

lemma strip_around_literal:
  "strip (pre @ CHR 0x27 # lit @ CHR 0x27 # post) =
     dropWhile isspace pre @ CHR 0x27 # lit @ CHR 0x27 # rev (dropWhile isspace (rev post))"
proof -
  have 1: "dropWhile isspace (pre @ CHR 0x27 # lit @ CHR 0x27 # post) =
             dropWhile isspace pre @ CHR 0x27 # lit @ CHR 0x27 # post"
    by (rule dropWhile_nonspace) simp
  have 2: "rev (dropWhile isspace pre @ CHR 0x27 # lit @ CHR 0x27 # post) =
             rev post @ CHR 0x27 # (rev lit @ CHR 0x27 # rev (dropWhile isspace pre))"
    by simp
  have 3: "dropWhile isspace (rev post @ CHR 0x27 # (rev lit @ CHR 0x27 # rev (dropWhile isspace pre)))
             = dropWhile isspace (rev post) @ CHR 0x27 # (rev lit @ CHR 0x27 # rev (dropWhile isspace pre))"
    by (rule dropWhile_nonspace) simp
  show ?thesis
    unfolding strip_def 1 2 3 by simp
qed

section \<open>Scripts without quotes and comments\<close>

lemma plain_append: "plain (a @ b) \<Longrightarrow> plain a \<and> plain b"
  by (auto simp: plain_def has_pair_append)

lemma plain_strip: "plain s \<Longrightarrow> plain (strip s)"
proof -
  assume p: "plain s"
  obtain u v where "s = u @ strip s @ v"
    using strip_decomp by blast
  then have "plain (u @ strip s @ v)"
    using p by simp
  then show ?thesis
    using plain_append by blast
qed

lemma emit_keeps_flags: "\<not> in_string st \<Longrightarrow> \<not> in_comment st
   \<Longrightarrow> \<not> in_string (foldl emit st ps) \<and> \<not> in_comment (foldl emit st ps)"
  by (induction ps arbitrary: st) simp_all

lemma scan_plain_line:
  assumes "plain L" "\<not> in_string st" "\<not> in_comment st"
  shows "scan_line st L 0 =
           Inr (foldl emit st (butlast (split_on (CHR '';'') L)), last (split_on (CHR '';'') L))"
  using assms
proof (induction "length L" arbitrary: L st rule: less_induct)
  case less
  have f: "\<not> fst (flags st)"
    using less.prems(2) by (simp add: flags_def)
  show ?case
  proof (cases "CHR '';'' \<in> set L")
    case False
    have c: "clean (flags st) L [] \<and> flags_after (flags st) L = flags st"
      using f less.prems(1) False by (intro clean_plain) simp_all
    have "scan_line st L 0 = scan_line (set_flags st (flags_after (flags st) L)) L (0 + length L)"
      using less.prems(3) c scan_line_prefix [of st 0 L L "[]"] by simp
    then show ?thesis
      using c False by (simp add: scan_line_end split_on_none)
  next
    case True
    then obtain t rest where L: "L = t @ CHR '';'' # rest" and t: "CHR '';'' \<notin> set t"
      by (auto dest: split_list_first)
    have pt: "plain t" and pr: "plain rest"
      using less.prems(1) plain_append [of t "CHR '';'' # rest"] plain_append [of "'';''" rest]
      unfolding L by simp_all
    have c: "clean (flags st) t (CHR '';'' # rest) \<and> flags_after (flags st) t = flags st"
      using f pt t by (intro clean_plain) simp_all
    have "scan_line st L 0 = scan_line (set_flags st (flags_after (flags st) t)) L (0 + length t)"
      using less.prems(3) c L scan_line_prefix [of st 0 L t "CHR '';'' # rest"] by simp
    then have 1: "scan_line st L 0 = scan_line st L (length t)"
      using c by simp
    have 2: "scan_line st L (length t) = scan_line (emit st (take (length t) L)) rest 0"
      using less.prems(2,3) by (intro scan_line_delim) (simp_all add: L)
    have 3: "scan_line (emit st t) rest 0 =
               Inr (foldl emit (emit st t) (butlast (split_on (CHR '';'') rest)),
                    last (split_on (CHR '';'') rest))"
      using pr less.prems(2,3) by (intro less.hyps) (simp_all add: L)
    have 4: "split_on (CHR '';'') L = t # split_on (CHR '';'') rest"
      unfolding L using t by (rule split_on_first)
    have 5: "take (length t) L = t"
      by (simp add: L)
    have 6: "butlast (split_on (CHR '';'') L) = t # butlast (split_on (CHR '';'') rest)"
      "last (split_on (CHR '';'') L) = last (split_on (CHR '';'') rest)"
      by (simp_all add: 4)
    show ?thesis
      by (simp only: 1 2 5 3 6 foldl_Cons)
  qed
qed

lemma foldl_emit_queries:
  "current_query st = [] \<Longrightarrow>
     queries (foldl emit st ps) = queries st @ filter (\<lambda>p. p \<noteq> []) (map strip ps)
     \<and> current_query (foldl emit st ps) = []"
  by (induction ps arbitrary: st) (simp_all add: emit_queries)

lemma split_on_spaces_left:
  "\<forall>c\<in>set u. isspace c \<Longrightarrow>
     map strip (split_on (CHR '';'') (u @ x)) = map strip (split_on (CHR '';'') x)"
proof (induction u)
  case Nil
  show ?case by simp
next
  case (Cons c u)
  obtain p ps where ps: "split_on (CHR '';'') (u @ x) = p # ps"
    by (cases "split_on (CHR '';'') (u @ x)") simp_all
  have c: "isspace c" "c \<noteq> CHR '';''"
    using Cons.prems by (auto dest: isspace_not_special)
  have "strip ([c] @ p) = strip p"
    using c(1) by (intro strip_spaces_left) simp
  then show ?case
    using Cons ps c by simp
qed

lemma split_on_append_right:
  "sep \<notin> set v \<Longrightarrow>
     split_on sep (x @ v) = butlast (split_on sep x) @ [last (split_on sep x) @ v]"
proof (induction x)
  case Nil
  then show ?case by (simp add: split_on_none)
next
  case (Cons c x)
  obtain p ps where ps: "split_on sep x = p # ps"
    by (cases "split_on sep x") simp_all
  show ?case
    using Cons ps by (cases ps) auto
qed

lemma split_on_spaces_right:
  assumes "\<forall>c\<in>set v. isspace c"
  shows "map strip (split_on (CHR '';'') (x @ v)) = map strip (split_on (CHR '';'') x)"
proof -
  let ?ps = "split_on (CHR '';'') x"
  have "CHR '';'' \<notin> set v"
    using assms by (auto dest: isspace_not_special)
  then have "split_on (CHR '';'') (x @ v) = butlast ?ps @ [last ?ps @ v]"
    by (rule split_on_append_right)
  then have "map strip (split_on (CHR '';'') (x @ v)) = map strip (butlast ?ps) @ [strip (last ?ps)]"
    using assms by (simp add: strip_spaces_right)
  also have "\<dots> = map strip (butlast ?ps @ [last ?ps])"
    by (simp only: map_append list.map)
  also have "butlast ?ps @ [last ?ps] = ?ps"
    by (rule append_butlast_last_id) simp
  finally show ?thesis .
qed

lemma reference_split_strip: "reference_split (strip s) = reference_split s"
proof -
  obtain u v where s: "s = u @ strip s @ v" and u: "\<forall>c\<in>set u. isspace c"
    and v: "\<forall>c\<in>set v. isspace c"
    using strip_decomp by blast
  have "map strip (split_on (CHR '';'') (u @ (strip s @ v))) = map strip (split_on (CHR '';'') (strip s))"
    using u v by (simp only: split_on_spaces_left split_on_spaces_right)
  then have "map strip (split_on (CHR '';'') s) = map strip (split_on (CHR '';'') (strip s))"
    using s by simp
  then show ?thesis
    by (simp add: reference_split_def)
qed

lemma startswith_dashes_pair:
  assumes "startswith s ''--''"
  shows "has_pair (CHR ''-'') (CHR ''-'') s"
proof (cases s)
  case Nil
  then show ?thesis using assms by (simp add: startswith_def)
next
  case (Cons a r)
  then show ?thesis using assms by (cases r) (simp_all add: startswith_def)
qed

section \<open>Facts on \<open>join\<close> and on the parts of a split\<close>

lemma join_snoc:
  "join sep (xs @ [p]) = (if xs = [] then p else join sep xs @ sep @ p)"
  by (induction sep xs rule: join.induct) simp_all

lemma set_join: "set (join sep xs) \<subseteq> set sep \<union> \<Union> (set ` set xs)"
  by (induction sep xs rule: join.induct) auto

lemma newline_free_join:
  "\<forall>p\<in>set xs. CHR ''\<newline>'' \<notin> set p \<Longrightarrow> CHR ''\<newline>'' \<notin> set (join '' '' xs)"
  using set_join [of "'' ''" xs] by auto

lemma set_strip: "set (strip s) \<subseteq> set s"
proof -
  obtain u v where "s = u @ strip s @ v"
    using strip_decomp by blast
  then have "set s = set u \<union> set (strip s) \<union> set v"
    by (metis set_append sup_assoc)
  then show ?thesis by blast
qed

lemma split_on_hd: "\<exists>v. s = hd (split_on sep s) @ v"
proof (induction s)
  case Nil
  show ?case by simp
next
  case (Cons c s)
  obtain p ps where "split_on sep s = p # ps"
    by (cases "split_on sep s") simp_all
  then show ?case
    using Cons by auto
qed

lemma split_on_part: "l \<in> set (split_on sep s) \<Longrightarrow> \<exists>u v. s = u @ l @ v"
proof (induction s arbitrary: l)
  case Nil
  then show ?case by simp
next
  case (Cons c s)
  obtain p ps where ps: "split_on sep s = p # ps"
    by (cases "split_on sep s") simp_all
  obtain w where w: "s = p @ w"
    using split_on_hd [of s sep] ps by auto
  show ?case
  proof (cases "c = sep")
    case True
    then have "l = [] \<or> l \<in> set (split_on sep s)"
      using Cons.prems by simp
    then show ?thesis
    proof
      assume "l = []"
      then have "c # s = [] @ l @ (c # s)" by simp
      then show ?thesis by blast
    next
      assume "l \<in> set (split_on sep s)"
      then obtain u v where "s = u @ l @ v"
        using Cons.IH by blast
      then have "c # s = (c # u) @ l @ v" by simp
      then show ?thesis by blast
    qed
  next
    case False
    then have "l = c # p \<or> l \<in> set ps"
      using Cons.prems ps by simp
    then show ?thesis
    proof
      assume "l = c # p"
      then have "c # s = [] @ l @ w" using w by simp
      then show ?thesis by blast
    next
      assume "l \<in> set ps"
      then have "l \<in> set (split_on sep s)" using ps by simp
      then obtain u v where "s = u @ l @ v"
        using Cons.IH by blast
      then have "c # s = (c # u) @ l @ v" by simp
      then show ?thesis by blast
    qed
  qed
qed

section \<open>Scripts of several lines without quotes and comments\<close>

lemma split_on_prefix_free:
  "sep \<notin> set a \<Longrightarrow> split_on sep (a @ x) = (a @ hd (split_on sep x)) # tl (split_on sep x)"
proof (induction a)
  case Nil
  show ?case by simp
next
  case (Cons c a)
  then show ?case by auto
qed

lemma split_on_append_last:
  "split_on sep (x @ b) = butlast (split_on sep x) @ split_on sep (last (split_on sep x) @ b)"
proof (induction x)
  case Nil
  show ?case by simp
next
  case (Cons c x)
  obtain p ps where ps: "split_on sep x = p # ps"
    by (cases "split_on sep x") simp_all
  obtain q qs where qs: "split_on sep (p @ b) = q # qs"
    by (cases "split_on sep (p @ b)") simp_all
  show ?case
    using Cons ps qs by (cases ps) auto
qed

lemma join_append:
  "join sep (xs @ ys) =
     (if xs = [] then join sep ys else if ys = [] then join sep xs
      else join sep xs @ sep @ join sep ys)"
  by (induction sep xs rule: join.induct) (auto simp: neq_Nil_conv)

lemma semicolon_free_join:
  "\<forall>p\<in>set xs. CHR '';'' \<notin> set p \<Longrightarrow> CHR '';'' \<notin> set (join '' '' xs)"
  using set_join [of "'' ''" xs] by auto

lemma reference_split_free:
  "CHR '';'' \<notin> set t \<Longrightarrow> reference_split t = (if strip t = [] then [] else [strip t])"
  by (simp add: reference_split_def split_on_none)

lemma finish_free:
  assumes "\<not> in_comment st" "\<forall>p\<in>set (current_query st). CHR '';'' \<notin> set p"
  shows "finish st = queries st @ reference_split (join '' '' (current_query st))"
proof -
  have "CHR '';'' \<notin> set (join '' '' (current_query st))"
    using assms(2) by (rule semicolon_free_join)
  then have "reference_split (join '' '' (current_query st)) =
      (if strip (join '' '' (current_query st)) = [] then [] else [strip (join '' '' (current_query st))])"
    by (rule reference_split_free)
  then show ?thesis
    using assms(1) by (cases "current_query st = []") (simp_all add: finish_def)
qed

lemma join_Cons: "join sep (x # xs) = (if xs = [] then x else x @ sep @ join sep xs)"
  by (cases xs) simp_all

lemma reference_split_line:
  assumes "CHR '';'' \<notin> set a" "split_on (CHR '';'') L = p # ps" "ps \<noteq> []"
  shows "reference_split (a @ L @ b) =
           filter (\<lambda>p. p \<noteq> []) [strip (a @ p)] @ filter (\<lambda>p. p \<noteq> []) (map strip (butlast ps))
           @ reference_split (last ps @ b)"
proof -
  have 1: "split_on (CHR '';'') (a @ L) = (a @ p) # ps"
    using assms(1,2) by (simp add: split_on_prefix_free)
  have "split_on (CHR '';'') ((a @ L) @ b) =
          butlast ((a @ p) # ps) @ split_on (CHR '';'') (last ((a @ p) # ps) @ b)"
    unfolding 1 [symmetric] by (rule split_on_append_last)
  then have "split_on (CHR '';'') (a @ L @ b) =
          ((a @ p) # butlast ps) @ split_on (CHR '';'') (last ps @ b)"
    using assms(3) by simp
  then show ?thesis
    by (simp add: reference_split_def)
qed

lemma process_plain_lines:
  assumes "\<forall>l\<in>set ls. plain l" "\<not> in_string st" "\<not> in_comment st"
    and "\<forall>p\<in>set (current_query st). CHR '';'' \<notin> set p"
  shows "\<exists>st'. process_lines st ls = Inr st'
           \<and> finish st' = queries st @ reference_split
                 (join '' '' (current_query st @ filter (\<lambda>l. l \<noteq> []) (map strip ls)))"
  using assms
proof (induction ls arbitrary: st)
  case Nil
  then show ?case by (simp add: finish_free)
next
  case (Cons l ls)
  let ?X = "filter (\<lambda>l. l \<noteq> []) (map strip ls)"
  have pls: "\<forall>l\<in>set ls. plain l"
    using Cons.prems(1) by simp
  show ?case
  proof (cases "strip l = []")
    case True
    then have "process_lines st (l # ls) = process_lines st ls"
      by (simp add: process_lines_skip)
    then show ?thesis
      using Cons.IH [OF pls Cons.prems(2,3,4)] True by simp
  next
    case False
    let ?L = "strip l"
    let ?ps = "split_on (CHR '';'') ?L"
    define st1 where "st1 = foldl emit st (butlast ?ps)"
    define s2 where "s2 = st1\<lparr>current_query := current_query st1 @ [last ?ps]\<rparr>"
    have p: "plain ?L"
      using Cons.prems(1) by (simp add: plain_strip)
    have ns: "\<not> startswith ?L ''--''"
      using p startswith_dashes_pair by (auto simp: plain_def)
    have sc: "scan_line st ?L 0 = Inr (st1, last ?ps)"
      unfolding st1_def using p Cons.prems(2,3) by (rule scan_plain_line)
    have fl: "\<not> in_string st1" "\<not> in_comment st1"
      unfolding st1_def using emit_keeps_flags [OF Cons.prems(2,3)] by blast+
    have pl: "process_lines st (l # ls) = process_lines s2 ls"
      using process_lines_scan [OF False ns sc, of ls] fl(2) by (simp add: s2_def)
    have fl2: "\<not> in_string s2" "\<not> in_comment s2"
      using fl by (simp_all add: s2_def)
    show ?thesis
    proof (cases "CHR '';'' \<in> set ?L")
      case no: False
      then have ps: "?ps = [?L]"
        by (simp add: split_on_none)
      have s2: "s2 = st\<lparr>current_query := current_query st @ [?L]\<rparr>"
        by (simp add: s2_def st1_def ps)
      have fr: "\<forall>p\<in>set (current_query s2). CHR '';'' \<notin> set p"
        using Cons.prems(4) no by (simp add: s2)
      obtain st' where st': "process_lines s2 ls = Inr st'"
        "finish st' = queries s2 @ reference_split (join '' '' (current_query s2 @ ?X))"
        using Cons.IH [OF pls fl2 fr] by blast
      show ?thesis
        using st' pl False by (simp add: s2)
    next
      case True
      then obtain p1 r where L: "?L = p1 @ CHR '';'' # r" and p1: "CHR '';'' \<notin> set p1"
        by (auto dest: split_list_first)
      let ?ps' = "split_on (CHR '';'') r"
      have ps: "?ps = p1 # ?ps'"
        unfolding L using p1 by (rule split_on_first)
      have ne: "?ps' \<noteq> []"
        by simp
      define a where "a = (if current_query st = [] then [] else join '' '' (current_query st) @ '' '')"
      define b where "b = (if ?X = [] then [] else '' '' @ join '' '' ?X)"
      have fa: "CHR '';'' \<notin> set a"
        using semicolon_free_join [OF Cons.prems(4)] by (simp add: a_def)
      have j1: "join '' '' (current_query st @ ?L # ?X) = a @ ?L @ b"
        by (simp add: join_append join_Cons a_def b_def)
      have j2: "join '' '' (current_query st @ [p1]) = a @ p1"
        by (simp add: join_snoc a_def)
      have j3: "join '' '' (last ?ps' # ?X) = last ?ps' @ b"
        by (simp add: join_Cons b_def)
      have bl: "butlast ?ps = p1 # butlast ?ps'" "last ?ps = last ?ps'"
        using ne by (simp_all add: ps)
      have q1: "queries (emit st p1) = queries st @ filter (\<lambda>p. p \<noteq> []) [strip (a @ p1)]"
        by (simp add: emit_queries j2)
      have q2: "queries st1 = queries (emit st p1) @ filter (\<lambda>p. p \<noteq> []) (map strip (butlast ?ps'))"
        "current_query st1 = []"
        unfolding st1_def bl using foldl_emit_queries [of "emit st p1" "butlast ?ps'"] by simp_all
      have c2: "current_query s2 = [last ?ps']" and qs2: "queries s2 = queries st1"
        by (simp_all add: s2_def q2(2) bl(2))
      have "last ?ps' \<in> set ?ps'"
        using ne by (rule last_in_set)
      then have fr: "\<forall>p\<in>set (current_query s2). CHR '';'' \<notin> set p"
        using split_on_free [of "CHR '';''" r] by (simp add: c2)
      obtain st' where st': "process_lines s2 ls = Inr st'"
        "finish st' = queries s2 @ reference_split (join '' '' (current_query s2 @ ?X))"
        using Cons.IH [OF pls fl2 fr] by blast
      have "reference_split (a @ ?L @ b) =
           filter (\<lambda>p. p \<noteq> []) [strip (a @ p1)] @ filter (\<lambda>p. p \<noteq> []) (map strip (butlast ?ps'))
           @ reference_split (last ?ps' @ b)"
        using fa ps ne by (rule reference_split_line)
      then have "finish st' = queries st @ reference_split (a @ ?L @ b)"
        using st'(2) by (simp add: c2 qs2 q1 q2(1) j3)
      then show ?thesis
        using st'(1) pl False by (simp add: j1)
    qed
  qed
qed

text \<open>
  Claim C8, as stated: on every script without quotes and comment markers the result is that
  of the reference (split on \<open>;\<close>, trim, drop the empty pieces). A statement that runs over
  two lines is joined with a space by the code and keeps its line break in the reference.
\<close>

theorem plain_script_reference_counterexample:
  "plain ''a\<newline>b;'' \<and> split_sql_queries ''a\<newline>b;'' = Inr [''a b'']
   \<and> reference_split ''a\<newline>b;'' = [''a\<newline>b'']
   \<and> split_sql_queries ''a\<newline>b;'' \<noteq> Inr (reference_split ''a\<newline>b;'')"
proof -
  have 1: "plain ''a\<newline>b;''"
    by (simp add: plain_def)
  have 2: "split_sql_queries ''a\<newline>b;'' = Inr [''a b'']"
    by code_simp
  have 3: "reference_split ''a\<newline>b;'' = [''a\<newline>b'']"
    by code_simp
  show ?thesis
    using 1 2 3 by simp
qed

text \<open>
  Claim C8, amended. On every script without quotes and comment markers the result is that
  of the reference applied to the script on one line: every line trimmed, the blank lines
  dropped, the others joined by single spaces. For a script without line breaks this is the
  reference applied to the script itself.
\<close>

theorem plain_script_reference:
  assumes "plain s"
  shows "split_sql_queries s = Inr (reference_split (join_lines s))
         \<and> (CHR ''\<newline>'' \<notin> set s \<longrightarrow> split_sql_queries s = Inr (reference_split s))"
proof -
  have pl: "\<forall>l\<in>set (split_on (CHR ''\<newline>'') s). plain l"
  proof
    fix l
    assume "l \<in> set (split_on (CHR ''\<newline>'') s)"
    then obtain u v where "s = u @ l @ v"
      using split_on_part by blast
    then have "plain (u @ l @ v)"
      using assms by simp
    then show "plain l"
      using plain_append by blast
  qed
  have i: "\<not> in_string init_state" "\<not> in_comment init_state"
    "\<forall>p\<in>set (current_query init_state). CHR '';'' \<notin> set p"
    by (simp_all add: init_state_def)
  obtain st' where st': "process_lines init_state (split_on (CHR ''\<newline>'') s) = Inr st'"
    "finish st' = queries init_state @ reference_split
       (join '' '' (current_query init_state
          @ filter (\<lambda>l. l \<noteq> []) (map strip (split_on (CHR ''\<newline>'') s))))"
    using process_plain_lines [OF pl i] by blast
  have 1: "split_sql_queries s = Inr (reference_split (join_lines s))"
    using st' by (simp add: split_sql_queries_def join_lines_def init_state_def)
  have 2: "reference_split (join_lines s) = reference_split s" if "CHR ''\<newline>'' \<notin> set s"
  proof -
    have "join_lines s = strip s"
      using that by (simp add: join_lines_def split_on_none)
    then show ?thesis
      by (simp add: reference_split_strip)
  qed
  show ?thesis
    using 1 2 by simp
qed

theorem plain_script_reference_witness:
  "split_sql_queries ''a\<newline> b ; c\<newline>d;'' = Inr [''a b'', ''c d'']
   \<and> split_sql_queries ''  SELECT 1 ;; SELECT 2 - 1; '' = Inr [''SELECT 1'', ''SELECT 2 - 1'']"
proof -
  have 1: "plain ''a\<newline> b ; c\<newline>d;''"
    by (simp add: plain_def)
  have 2: "reference_split (join_lines ''a\<newline> b ; c\<newline>d;'') = [''a b'', ''c d'']"
    by code_simp
  have 3: "plain ''  SELECT 1 ;; SELECT 2 - 1; ''"
    "CHR ''\<newline>'' \<notin> set ''  SELECT 1 ;; SELECT 2 - 1; ''"
    by (simp_all add: plain_def)
  have 4: "reference_split ''  SELECT 1 ;; SELECT 2 - 1; '' = [''SELECT 1'', ''SELECT 2 - 1'']"
    by code_simp
  have a: "split_sql_queries ''a\<newline> b ; c\<newline>d;'' = Inr [''a b'', ''c d'']"
    using plain_script_reference [OF 1] by (simp only: 2)
  have "split_sql_queries ''  SELECT 1 ;; SELECT 2 - 1; ''
          = Inr (reference_split ''  SELECT 1 ;; SELECT 2 - 1; '')"
    using plain_script_reference [OF 3(1)] 3(2) by blast
  then have b: "split_sql_queries ''  SELECT 1 ;; SELECT 2 - 1; '' = Inr [''SELECT 1'', ''SELECT 2 - 1'']"
    by (simp only: 4)
  show ?thesis
    using a b by (rule conjI)
qed

section \<open>The scanner on lexically regular text\<close>

text \<open>
  On a character that the lexical reading accepts, the inner loop makes the same move: the
  flags after the round are those of the new lexical state.
\<close>

lemma put_agrees [simp]: "agrees (put st s) s"
  by (simp add: put_def agrees_def)

lemma agrees_put: "agrees st s \<Longrightarrow> put st s = st"
proof -
  assume "agrees st s"
  then have "enc s = (in_string st, string_char st, in_comment st)"
    by (simp add: agrees_def)
  then show ?thesis
    by (simp add: put_def)
qed

lemma put_simps [simp]:
  "queries (put st s) = queries st" "current_query (put st s) = current_query st"
  "put (put st s) s' = put st s'"
  by (simp_all add: put_def)

lemma agrees_facts:
  "agrees st Code \<Longrightarrow> \<not> in_string st \<and> \<not> in_comment st \<and> string_char st = None"
  "agrees st (Lit q) \<Longrightarrow> in_string st \<and> \<not> in_comment st \<and> string_char st = Some q"
  "agrees st Block \<Longrightarrow> \<not> in_string st \<and> in_comment st \<and> string_char st = None"
  by (simp_all add: agrees_def enc_def)

lemma scan_token_move1:
  assumes "agrees st s" "drop i line = c # n" "token s c n = Move1 s'"
  shows "scan_line st line i = scan_line (put st s') line (Suc i)"
proof -
  note d = drop_Cons_facts [OF assms(2)]
  note step = scan_line_step [OF d(1), of st, unfolded d(2)]
  show ?thesis
  proof (cases s)
    case Code
    note a = agrees_facts(1) [OF assms(1) [unfolded Code]]
    show ?thesis
    proof (cases "is_quote c")
      case True
      then have s': "s' = Lit c"
        using assms(3) Code by (simp add: token_def)
      have "put st (Lit c) = st\<lparr>in_string := True, string_char := Some c\<rparr>"
        using a by (cases st) (simp add: put_def enc_def)
      then show ?thesis
        using True a by (simp add: step s' is_quote_def)
    next
      case False
      then have t: "c \<noteq> CHR '';''" "\<not> (n \<noteq> [] \<and> marker c (hd n))" "s' = Code"
        using assms(3) Code by (auto simp: token_def split: if_splits)
      have nq: "\<not> (c = CHR 0x27 \<or> c = CHR 0x22)"
        using False by (simp add: is_quote_def)
      have n1: "\<not> (c = CHR ''-'' \<and> next_is line i (CHR ''-'') \<and> \<not> in_string st)"
        "\<not> (c = CHR ''*'' \<and> next_is line i (CHR ''/'') \<and> \<not> in_string st)"
        "\<not> (c = CHR ''/'' \<and> next_is line i (CHR ''*'') \<and> \<not> in_string st)"
        "\<not> (c = CHR '';'' \<and> \<not> in_string st \<and> \<not> in_comment st)"
        using t by (auto simp: d(4) marker_def)
      have "put st s' = st"
        using assms(1) Code t(3) by (simp add: agrees_put)
      then show ?thesis
        by (simp only: step nq n1 if_False simp_thms)
    qed
  next
    case (Lit q)
    note a = agrees_facts(2) [OF assms(1) [unfolded Lit]]
    have s': "s' = (if c = q \<and> is_quote c then Code else Lit q)"
      using assms(3) Lit by (simp add: token_def)
    have n1: "\<not> (c = CHR ''-'' \<and> next_is line i (CHR ''-'') \<and> \<not> in_string st)"
      "\<not> (c = CHR ''*'' \<and> next_is line i (CHR ''/'') \<and> \<not> in_string st)"
      "\<not> (c = CHR ''/'' \<and> next_is line i (CHR ''*'') \<and> \<not> in_string st)"
      "\<not> (c = CHR '';'' \<and> \<not> in_string st \<and> \<not> in_comment st)"
      using a by simp_all
    show ?thesis
    proof (cases "c = q \<and> is_quote c")
      case True
      have "put st Code = st\<lparr>in_string := False, string_char := None\<rparr>"
        using a by (cases st) (simp add: put_def enc_def)
      then show ?thesis
        using True a by (auto simp: step s' is_quote_def)
    next
      case False
      have "s' = Lit q"
        using False by (auto simp: s')
      then have p: "put st s' = st"
        using assms(1) Lit by (simp add: agrees_put)
      show ?thesis
      proof (cases "is_quote c")
        case True
        then have "Some c \<noteq> string_char st"
          using False a by simp
        then show ?thesis
          using True a p by (simp add: step is_quote_def)
      next
        case nq: False
        then have "\<not> (c = CHR 0x27 \<or> c = CHR 0x22)"
          by (simp add: is_quote_def)
        then show ?thesis
          by (simp only: step n1 p if_False simp_thms)
      qed
    qed
  next
    case Block
    note a = agrees_facts(3) [OF assms(1) [unfolded Block]]
    have t: "\<not> (n \<noteq> [] \<and> marker c (hd n))" "s' = Block"
      using assms(3) Block by (auto simp: token_def split: if_splits)
    have n0: "\<not> ((c = CHR 0x27 \<or> c = CHR 0x22) \<and> \<not> in_comment st)"
      using a by simp
    have n1: "\<not> (c = CHR ''-'' \<and> next_is line i (CHR ''-'') \<and> \<not> in_string st)"
      "\<not> (c = CHR ''*'' \<and> next_is line i (CHR ''/'') \<and> \<not> in_string st)"
      "\<not> (c = CHR ''/'' \<and> next_is line i (CHR ''*'') \<and> \<not> in_string st)"
      "\<not> (c = CHR '';'' \<and> \<not> in_string st \<and> \<not> in_comment st)"
      using t a by (auto simp: d(4) marker_def)
    have "put st s' = st"
      using assms(1) Block t(2) by (simp add: agrees_put)
    then show ?thesis
      by (simp only: step n0 n1 if_False simp_thms)
  qed
qed

lemma scan_token_move2:
  assumes "agrees st s" "drop i line = c # n" "token s c n = Move2 s'"
  shows "scan_line st line i = scan_line (put st s') line (Suc (Suc i))"
proof -
  note d = drop_Cons_facts [OF assms(2)]
  note step = scan_line_step [OF d(1), of st, unfolded d(2)]
  show ?thesis
  proof (cases s)
    case Code
    note a = agrees_facts(1) [OF assms(1) [unfolded Code]]
    have t: "\<not> is_quote c" "c = CHR ''/''" "n \<noteq> []" "hd n = CHR ''*''" "s' = Block"
      using assms(3) Code by (auto simp: token_def marker_def split: if_splits)
    have nx: "next_is line i (CHR ''*'')" "\<not> next_is line i (CHR ''-'')"
      using t by (simp_all add: d(4))
    have "put st Block = st\<lparr>in_comment := True\<rparr>"
      using a by (cases st) (simp add: put_def enc_def)
    then show ?thesis
      using t a nx by (simp add: step)
  next
    case (Lit q)
    then show ?thesis
      using assms(3) by (simp add: token_def)
  next
    case Block
    note a = agrees_facts(3) [OF assms(1) [unfolded Block]]
    have t: "c = CHR ''*''" "n \<noteq> []" "hd n = CHR ''/''" "s' = Code"
      using assms(3) Block by (auto simp: token_def marker_def split: if_splits)
    have nx: "next_is line i (CHR ''/'')"
      using t by (simp add: d(4))
    have "put st Code = st\<lparr>in_comment := False\<rparr>"
      using a by (cases st) (simp add: put_def enc_def)
    then show ?thesis
      using t a nx by (simp add: step)
  qed
qed

lemma scan_token_delim:
  assumes "agrees st s" "drop i line = c # n" "token s c n = Delim"
  shows "scan_line st line i = scan_line (emit st (take i line)) n 0 \<and> s = Code"
proof -
  have s: "s = Code" and c: "c = CHR '';''"
    using assms(3) by (auto simp: token_def split: lexstate.splits if_splits)
  note a = agrees_facts(1) [OF assms(1) [unfolded s]]
  have "scan_line st line i = scan_line (emit st (take i line)) n 0"
    using a assms(2) c by (intro scan_line_delim) simp_all
  then show ?thesis
    using s by simp
qed

lemma lex_Cons:
  "lexer d s (c # cs) rest =
     (case token s c (cs @ rest) of
        Bad \<Rightarrow> None
      | Delim \<Rightarrow> if d then lexer d Code cs rest else None
      | Move1 s' \<Rightarrow> lexer d s' cs rest
      | Move2 s' \<Rightarrow> if cs = [] then None else lexer d s' (tl cs) rest)"
  by simp

declare lexer.simps(2) [simp del]

lemma scan_line_lex:
  assumes "agrees st s" "drop i line = t @ rest" "lexer False s t rest = Some s'"
  shows "scan_line st line i = scan_line (put st s') line (i + length t)"
  using assms
proof (induction "length t" arbitrary: st s t i rule: less_induct)
  case less
  show ?case
  proof (cases t)
    case Nil
    then show ?thesis
      using less.prems by (simp add: agrees_put)
  next
    case (Cons c cs)
    have d: "drop i line = c # (cs @ rest)"
      using less.prems(2) Cons by simp
    have l: "lexer False s (c # cs) rest = Some s'"
      using less.prems(3) Cons by simp
    show ?thesis
    proof (cases "token s c (cs @ rest)")
      case (Move1 s1)
      have 1: "scan_line st line i = scan_line (put st s1) line (Suc i)"
        using less.prems(1) d Move1 by (rule scan_token_move1)
      have 2: "scan_line (put st s1) line (Suc i) = scan_line (put (put st s1) s') line (Suc i + length cs)"
      proof (rule less.hyps)
        show "length cs < length t" using Cons by simp
        show "agrees (put st s1) s1" by simp
        show "drop (Suc i) line = cs @ rest" using drop_Cons_facts(3) [OF d] .
        show "lexer False s1 cs rest = Some s'" using l Move1 by (simp add: lex_Cons)
      qed
      show ?thesis
        using 1 2 Cons by simp
    next
      case (Move2 s1)
      then obtain e es where cs: "cs = e # es" and l2: "lexer False s1 es rest = Some s'"
        using l by (cases cs) (simp_all add: lex_Cons)
      have 1: "scan_line st line i = scan_line (put st s1) line (Suc (Suc i))"
        using less.prems(1) d Move2 by (rule scan_token_move2)
      have dd: "drop (Suc (Suc i)) line = es @ rest"
        using drop_Cons_facts(3) [OF d] cs drop_Cons_facts(3) [of "Suc i" line e "es @ rest"] by simp
      have 2: "scan_line (put st s1) line (Suc (Suc i)) =
                 scan_line (put (put st s1) s') line (Suc (Suc i) + length es)"
      proof (rule less.hyps)
        show "length es < length t" using Cons cs by simp
        show "agrees (put st s1) s1" by simp
        show "drop (Suc (Suc i)) line = es @ rest" using dd .
        show "lexer False s1 es rest = Some s'" using l2 .
      qed
      show ?thesis
        using 1 2 Cons cs by simp
    next
      case Delim
      then show ?thesis using l by (simp add: lex_Cons)
    next
      case Bad
      then show ?thesis using l by (simp add: lex_Cons)
    qed
  qed
qed

section \<open>Facts on the lexical reading\<close>

lemma token_space: "isspace c \<Longrightarrow> token s c n = Move1 s"
  by (cases s) (auto simp: token_def marker_def dest: isspace_not_special)

lemma lex_spaces: "\<forall>c\<in>set w. isspace c \<Longrightarrow> lexer d s (w @ t) rest = lexer d s t rest"
  by (induction w) (simp_all add: lex_Cons token_space)

lemma token_safe:
  assumes "safe r'"
  shows "token s c r = Move1 s1 \<Longrightarrow> token s c r' = Move1 s1"
    and "token s c r = Delim \<Longrightarrow> token s c r' = Delim"
  using assms by (cases s; auto simp: token_def safe_def marker_def split: if_splits)+

lemma token_append: "cs \<noteq> [] \<Longrightarrow> token s c (cs @ r) = token s c cs"
  by (cases s) (simp_all add: token_def)

lemma lex_rest_safe:
  assumes "lexer d s t r = Some s2" "safe r'"
  shows "lexer d s t r' = Some s2"
  using assms(1)
proof (induction "length t" arbitrary: s t rule: less_induct)
  case less
  show ?case
  proof (cases t)
    case Nil
    then show ?thesis using less.prems by simp
  next
    case (Cons c cs)
    show ?thesis
    proof (cases "cs = []")
      case True
      have l: "lexer d s [c] r = Some s2"
        using less.prems Cons True by simp
      show ?thesis
      proof (cases "token s c r")
        case (Move1 s1)
        then show ?thesis
          using l token_safe(1) [OF assms(2) Move1] Cons True by (simp add: lex_Cons)
      next
        case Delim
        then show ?thesis
          using l token_safe(2) [OF assms(2) Delim] Cons True
          by (auto simp: lex_Cons split: if_splits)
      next
        case (Move2 s1)
        then show ?thesis using l by (simp add: lex_Cons)
      next
        case Bad
        then show ?thesis using l by (simp add: lex_Cons)
      qed
    next
      case False
      have tk: "token s c (cs @ r') = token s c (cs @ r)"
        using False by (simp add: token_append)
      have ih: "lexer d s1 u r = Some s2 \<Longrightarrow> length u < length t \<Longrightarrow> lexer d s1 u r' = Some s2" for s1 u
        using less.hyps by blast
      show ?thesis
        using less.prems Cons False ih [of _ cs] ih [of _ "tl cs"]
        by (auto simp: lex_Cons tk split: action.splits if_splits)
    qed
  qed
qed

lemma lex_join:
  assumes "lexer d s a (b @ rest) = Some s1"
  shows "lexer d s (a @ b) rest = lexer d s1 b rest"
  using assms
proof (induction "length a" arbitrary: s a rule: less_induct)
  case less
  show ?case
  proof (cases a)
    case Nil
    then show ?thesis using less.prems by simp
  next
    case (Cons c cs)
    have ih: "lexer d s' u (b @ rest) = Some s1 \<Longrightarrow> length u < length a
                \<Longrightarrow> lexer d s' (u @ b) rest = lexer d s1 b rest" for s' u
      using less.hyps by blast
    have tl: "cs \<noteq> [] \<Longrightarrow> tl (cs @ b) = tl cs @ b"
      by (cases cs) simp_all
    show ?thesis
      using less.prems Cons ih [of _ cs] ih [of _ "tl cs"] tl
      by (auto simp: lex_Cons split: action.splits if_splits)
  qed
qed

lemma lex_spaces_right:
  assumes "\<forall>c\<in>set w. isspace c" "lexer d s (a @ w) rest = Some s2"
  shows "lexer d s a (w @ rest) = Some s2"
  using assms(2)
proof (induction "length a" arbitrary: s a rule: less_induct)
  case less
  show ?case
  proof (cases a)
    case Nil
    then show ?thesis
      using less.prems lex_spaces [OF assms(1), of d s "[]" rest] by simp
  next
    case (Cons c cs)
    have ih: "lexer d s' (u @ w) rest = Some s2 \<Longrightarrow> length u < length a
                \<Longrightarrow> lexer d s' u (w @ rest) = Some s2" for s' u
      using less.hyps by blast
    show ?thesis
    proof (cases "cs = []")
      case True
      have l: "lexer d s (c # w) rest = Some s2"
        using less.prems Cons True by simp
      have sp: "lexer d s' w rest = Some s'" for s'
        using lex_spaces [OF assms(1), of d s' "[]" rest] by simp
      have nm: "\<not> (w \<noteq> [] \<and> marker c (hd (w @ rest)))"
        using assms(1) by (cases w) (auto simp: marker_def dest: isspace_not_special)
      show ?thesis
      proof (cases "w = []")
        case wn: True
        then show ?thesis using less.prems by simp
      next
        case False
        then have nm': "\<not> marker c (hd (w @ rest))"
          using nm by simp
        have "token s c (w @ rest) \<noteq> Bad" "\<And>s'. token s c (w @ rest) \<noteq> Move2 s'"
          using nm' by (cases s; auto simp: token_def)+
        then show ?thesis
          using l Cons True sp
          by (cases "token s c (w @ rest)") (auto simp: lex_Cons split: if_splits)
      qed
    next
      case False
      have tl: "tl (cs @ w) = tl cs @ w"
        using False by (cases cs) simp_all
      show ?thesis
        using less.prems Cons False ih [of _ cs] ih [of _ "tl cs"] tl
        by (auto simp: lex_Cons split: action.splits if_splits)
    qed
  qed
qed

lemma lex_in_literal: "q \<notin> set t \<Longrightarrow> lexer d (Lit q) t rest = Some (Lit q)"
  by (induction t) (auto simp: lex_Cons token_def)

lemma lex_not_dashes:
  assumes "lexer d Code t rest = Some s'" "t \<noteq> []"
  shows "\<not> startswith (t @ rest) ''--''"
proof
  assume sw: "startswith (t @ rest) ''--''"
  obtain c cs where t: "t = c # cs"
    using assms(2) by (cases t) auto
  have "c = CHR ''-'' \<and> cs @ rest \<noteq> [] \<and> hd (cs @ rest) = CHR ''-''"
    using sw t by (cases "cs @ rest") (auto simp: startswith_def)
  then have "token Code c (cs @ rest) = Bad"
    by (simp add: token_def is_quote_def marker_def)
  then show False
    using assms(1) t by (simp add: lex_Cons)
qed

section \<open>The lines of a regular script\<close>

lemma agrees_init [simp]: "agrees init_state Code"
  by (simp add: agrees_def enc_def init_state_def)

lemma agrees_emit [simp]: "agrees (emit st p) s = agrees st s"
  by (simp add: agrees_def)

lemma single_line_lex:
  assumes "t \<noteq> []" "lexer False Code t '';'' = Some Code" "strip l = t @ '';''"
  shows "\<exists>st. process_lines init_state [l] = Inr st \<and> queries st = queries (emit init_state t)
           \<and> current_query st = [[]] \<and> \<not> in_comment st"
proof -
  have 1: "scan_line init_state (t @ '';'') 0 = scan_line (put init_state Code) (t @ '';'') (0 + length t)"
    using assms(2) by (intro scan_line_lex [of init_state Code 0 _ t "'';''"]) simp_all
  have p: "put init_state Code = init_state"
    by (simp add: agrees_put)
  have 2: "scan_line init_state (t @ '';'') (length t) =
             scan_line (emit init_state (take (length t) (t @ '';''))) [] 0"
    by (intro scan_line_delim) (simp_all add: init_state_def)
  have 3: "scan_line (emit init_state t) [] 0 = Inr (emit init_state t, [])"
    by (simp add: scan_line_end)
  have s: "scan_line init_state (strip l) 0 = Inr (emit init_state t, [])"
    using 1 2 3 assms(3) by (simp add: p)
  have ns: "\<not> startswith (strip l) ''--''"
    using lex_not_dashes [OF assms(2,1)] assms(3) by simp
  have nc: "\<not> in_comment init_state"
    by (simp add: init_state_def)
  have "process_lines init_state [l] = Inr ((emit init_state t)\<lparr>current_query := [[]]\<rparr>)"
    using process_lines_scan [OF _ ns s, of "[]"] assms(3) nc by simp
  then show ?thesis
    using nc by simp
qed

lemma single_statement_lex:
  assumes "t \<noteq> []" "lexer False Code t '';'' = Some Code"
    and "strip inp = t @ '';''" "CHR ''\<newline>'' \<notin> set inp"
  shows "split_sql_queries inp = Inr (if strip t = [] then [] else [strip t])"
proof -
  obtain st where st: "process_lines init_state [inp] = Inr st"
      "queries st = queries (emit init_state t)" "current_query st = [[]]" "\<not> in_comment st"
    using single_line_lex [OF assms(1-3)] by blast
  have "finish st = queries (emit init_state t)"
    using st by (simp add: finish_def)
  also have "\<dots> = (if strip t = [] then [] else [strip t])"
    by (simp add: emit_queries init_state_def)
  finally show ?thesis
    using st(1) assms(4) by (simp add: split_sql_queries_def split_on_none)
qed

lemma resplit_lex:
  assumes "lexer False Code J r = Some Code" "CHR ''\<newline>'' \<notin> set J" "strip J \<noteq> []"
  shows "split_sql_queries (strip J @ '';'') = Inr [strip J]"
proof -
  obtain u v where J: "J = u @ strip J @ v" and u: "\<forall>c\<in>set u. isspace c"
    and v: "\<forall>c\<in>set v. isspace c"
    using strip_decomp by blast
  let ?s = "strip J"
  have "lexer False Code (u @ (?s @ v)) r = Some Code"
    using assms(1) J by simp
  then have "lexer False Code (?s @ v) r = Some Code"
    using lex_spaces [OF u] by simp
  then have "lexer False Code ?s (v @ r) = Some Code"
    by (rule lex_spaces_right [OF v])
  then have c: "lexer False Code ?s '';'' = Some Code"
    by (rule lex_rest_safe) simp
  have t: "trimmed ?s"
    using assms(3) by (rule strip_trimmed)
  then have "dropWhile isspace ?s = ?s"
    by (cases ?s) (simp_all add: trimmed_def)
  then have s: "strip (?s @ '';'') = ?s @ '';''"
    using strip_snoc_nonspace [of "CHR '';''" ?s] by simp
  have n: "CHR ''\<newline>'' \<notin> set (?s @ '';'')"
    using assms(2) set_strip [of J] by auto
  have "split_sql_queries (?s @ '';'') = Inr (if strip ?s = [] then [] else [strip ?s])"
    using assms(3) c s n by (rule single_statement_lex)
  then show ?thesis
    using assms(3) by simp
qed

lemma join_snoc_text: "join sep (xs @ [p @ t]) = join sep (xs @ [p]) @ t"
  by (simp add: join_snoc)

lemma scanned_emit:
  assumes "scanned cq piece (CHR '';'' # rest) Code" "current_query st = cq"
    and "\<forall>q\<in>set (queries st). resplits q"
  shows "\<forall>q\<in>set (queries (emit st piece)). resplits q"
proof -
  let ?J = "join '' '' (cq @ [piece])"
  have n: "CHR ''\<newline>'' \<notin> set ?J"
    using assms(1) by (intro newline_free_join) (auto simp: scanned_def)
  have "strip ?J \<noteq> [] \<Longrightarrow> resplits (strip ?J)"
    unfolding resplits_def using assms(1) n
    by (intro resplit_lex [of ?J "CHR '';'' # rest"]) (simp_all add: scanned_def)
  then show ?thesis
    using assms(2,3) by (auto simp: emit_queries)
qed

lemma scanned_move:
  assumes "scanned cq (take i line) (drop i line) s" "drop i line = t @ rest"
    and "lexer False s t rest = Some s1"
  shows "scanned cq (take (i + length t) line) (drop (i + length t) line) s1"
proof -
  have tk: "take (i + length t) line = take i line @ t"
    using assms(2) by (metis append_eq_conv_conj take_add)
  have dr: "drop (i + length t) line = rest"
    using assms(2) by (metis append_eq_conv_conj drop_drop add.commute)
  let ?J = "join '' '' (cq @ [take i line])"
  have "lexer False Code ?J (t @ rest) = Some s"
    using assms(1,2) by (simp add: scanned_def)
  then have "lexer False Code (?J @ t) rest = lexer False s t rest"
    by (rule lex_join)
  then have "lexer False Code (join '' '' (cq @ [take i line @ t])) rest = Some s1"
    using assms(3) by (simp only: join_snoc_text)
  moreover have "CHR ''\<newline>'' \<notin> set (take i line @ t)" "CHR ''\<newline>'' \<notin> set rest"
    using assms(1,2) by (auto simp: scanned_def)
  ultimately show ?thesis
    using assms(1) by (simp add: scanned_def tk dr)
qed

lemma scan_line_scanned:
  assumes "scan_line st line i = Inr (st', l')" "agrees st s"
    and "scanned (current_query st) (take i line) (drop i line) s"
    and "\<forall>q\<in>set (queries st). resplits q"
    and "lexer True s (drop i line) [] = Some e"
  shows "(\<forall>q\<in>set (queries st'). resplits q) \<and> agrees st' e
         \<and> scanned (current_query st') l' [] e"
  using assms
proof (induction "length line - i" arbitrary: st s line i rule: less_induct)
  case less
  show ?case
  proof (cases "i < length line")
    case False
    then have "st' = st" "l' = line" "e = s"
      using less.prems(1,5) by (simp_all add: scan_line_end)
    then show ?thesis
      using less.prems(2,3,4) False by simp
  next
    case True
    define c where "c = line ! i"
    define cs where "cs = drop (Suc i) line"
    have dr: "drop i line = c # cs"
      unfolding c_def cs_def using True by (rule Cons_nth_drop_Suc [symmetric])
    have le: "lexer True s (c # cs) [] = Some e"
      using less.prems(5) dr by simp
    show ?thesis
    proof (cases "token s c cs")
      case (Move1 s1)
      have 1: "scan_line (put st s1) line (Suc i) = Inr (st', l')"
        using scan_token_move1 [OF less.prems(2) dr Move1] less.prems(1) by simp
      have "lexer False s [c] cs = Some s1"
        using Move1 by (simp add: lex_Cons)
      then have "scanned (current_query st) (take (i + length [c]) line) (drop (i + length [c]) line) s1"
        using less.prems(3) dr by (intro scanned_move [where t = "[c]" and rest = cs]) simp_all
      then have 2: "scanned (current_query (put st s1)) (take (Suc i) line) (drop (Suc i) line) s1"
        by simp
      have 3: "lexer True s1 (drop (Suc i) line) [] = Some e"
        using le Move1 by (simp add: lex_Cons cs_def)
      show ?thesis
      proof (rule less.hyps [OF _ 1 _ 2 _ 3])
        show "length line - Suc i < length line - i" using True by simp
        show "agrees (put st s1) s1" by simp
        show "\<forall>q\<in>set (queries (put st s1)). resplits q" using less.prems(4) by simp
      qed
    next
      case (Move2 s1)
      then obtain d ds where cs: "cs = d # ds" and l2: "lexer True s1 ds [] = Some e"
        using le by (cases cs) (simp_all add: lex_Cons)
      have dd: "drop (Suc (Suc i)) line = ds"
        using cs drop_Cons_facts(3) [of "Suc i" line d ds] by (simp add: cs_def)
      have 1: "scan_line (put st s1) line (Suc (Suc i)) = Inr (st', l')"
        using scan_token_move2 [OF less.prems(2) dr Move2] less.prems(1) by simp
      have "lexer False s [c, d] ds = Some s1"
        using Move2 cs by (simp add: lex_Cons)
      then have "scanned (current_query st) (take (i + length [c, d]) line)
                   (drop (i + length [c, d]) line) s1"
        using less.prems(3) dr cs by (intro scanned_move [where t = "[c, d]" and rest = ds]) simp_all
      then have 2: "scanned (current_query (put st s1)) (take (Suc (Suc i)) line)
                      (drop (Suc (Suc i)) line) s1"
        by simp
      have 3: "lexer True s1 (drop (Suc (Suc i)) line) [] = Some e"
        using l2 dd by simp
      have lt: "Suc i < length line"
        using cs by (cases "Suc i < length line") (simp_all add: cs_def)
      show ?thesis
      proof (rule less.hyps [OF _ 1 _ 2 _ 3])
        show "length line - Suc (Suc i) < length line - i" using lt by simp
        show "agrees (put st s1) s1" by simp
        show "\<forall>q\<in>set (queries (put st s1)). resplits q" using less.prems(4) by simp
      qed
    next
      case Delim
      have sd: "scan_line st line i = scan_line (emit st (take i line)) cs 0" and s: "s = Code"
        using scan_token_delim [OF less.prems(2) dr Delim] by simp_all
      have c: "c = CHR '';''"
        using Delim s by (auto simp: token_def split: if_splits)
      define st1 where "st1 = emit st (take i line)"
      have 1: "scan_line st1 cs 0 = Inr (st', l')"
        using sd less.prems(1) by (simp add: st1_def)
      have tr: "scanned (current_query st) (take i line) (CHR '';'' # cs) Code"
        using less.prems(3) dr c s by simp
      have 2: "scanned (current_query st1) (take 0 cs) (drop 0 cs) Code"
        using tr by (simp add: st1_def scanned_def)
      have 3: "\<forall>q\<in>set (queries st1). resplits q"
        unfolding st1_def using tr refl less.prems(4) by (rule scanned_emit)
      have 4: "lexer True Code (drop 0 cs) [] = Some e"
        using le Delim by (simp add: lex_Cons)
      show ?thesis
      proof (rule less.hyps [OF _ 1 _ 2 3 4])
        show "length cs - 0 < length line - i" using True by (simp add: cs_def)
        show "agrees st1 Code" using less.prems(2) s by (simp add: st1_def)
      qed
    next
      case Bad
      then show ?thesis using le by (simp add: lex_Cons)
    qed
  qed
qed

lemma scanned_line_start:
  assumes "lines_ok st s" "s \<noteq> Block" "CHR ''\<newline>'' \<notin> set L"
  shows "scanned (current_query st) (take 0 L) (drop 0 L) s"
proof (cases "current_query st = []")
  case True
  then show ?thesis
    using assms by (simp add: lines_ok_def scanned_def)
next
  case False
  let ?J = "join '' '' (current_query st)"
  have a: "lexer False Code ?J [] = Some s"
    "\<forall>p\<in>set (current_query st). CHR ''\<newline>'' \<notin> set p"
    using assms(1,2) by (simp_all add: lines_ok_def)
  have j: "join '' '' (current_query st @ [[]]) = ?J @ '' ''"
    using False by (simp add: join_snoc)
  have sp: "isspace (CHR '' '')"
    by (simp add: isspace_def)
  have "lexer False Code ?J ('' '' @ L) = Some s"
    using a(1) by (rule lex_rest_safe) simp
  then have "lexer False Code (?J @ '' '') L = lexer False s '' '' L"
    by (rule lex_join)
  also have "\<dots> = Some s"
    using sp by (simp add: lex_Cons token_space)
  finally show ?thesis
    using a(2) assms(3) by (simp add: scanned_def j)
qed

lemma process_lines_ok:
  assumes "process_lines st ls = Inr st'" "lines_ok st s" "lex_lines s ls = Some e"
    and "\<forall>l\<in>set ls. CHR ''\<newline>'' \<notin> set l"
  shows "lines_ok st' e"
  using assms
proof (induction ls arbitrary: st s)
  case Nil
  then show ?case by simp
next
  case (Cons l ls)
  have nl: "\<forall>l\<in>set ls. CHR ''\<newline>'' \<notin> set l" "CHR ''\<newline>'' \<notin> set (strip l)"
    using Cons.prems(4) set_strip [of l] by auto
  show ?case
  proof (cases "s = Block")
    case True
    then have np: "\<forall>x\<in>set (l # ls). \<not> has_pair (CHR ''*'') (CHR ''/'') x" and e: "e = Block"
      using Cons.prems(3) by (auto simp: list_ex_iff split: if_splits)
    have "in_comment st"
      using Cons.prems(2) True by (simp add: lines_ok_def agrees_facts)
    then have "process_lines st (l # ls) = Inr st"
      using np by (rule process_lines_in_comment)
    then show ?thesis
      using Cons.prems(1,2) True e by simp
  next
    case nb: False
    show ?thesis
    proof (cases "strip l = [] \<or> startswith (strip l) ''--''")
      case True
      then have "process_lines st ls = Inr st'"
        using Cons.prems(1) by (simp add: process_lines_skip)
      moreover have "lex_lines s ls = Some e"
        using Cons.prems(3) nb True by (auto split: if_splits)
      ultimately show ?thesis
        using Cons.prems(2) nl(1) Cons.IH by blast
    next
      case False
      then obtain s1 where s1: "lexer True s (strip l) [] = Some s1" and ll: "lex_lines s1 ls = Some e"
        using Cons.prems(3) nb by (auto split: option.splits)
      obtain st1 l1 where r: "scan_line st (strip l) 0 = Inr (st1, l1)"
        using scan_line_total [of st "strip l" 0] by auto
      have ag: "agrees st s" and q: "\<forall>q\<in>set (queries st). resplits q"
        using Cons.prems(2) by (simp_all add: lines_ok_def)
      have tr: "scanned (current_query st) (take 0 (strip l)) (drop 0 (strip l)) s"
        using Cons.prems(2) nb nl(2) by (rule scanned_line_start)
      have e: "(\<forall>q\<in>set (queries st1). resplits q) \<and> agrees st1 s1
                \<and> scanned (current_query st1) l1 [] s1"
        using r ag tr q s1 by (intro scan_line_scanned [of st "strip l" 0]) simp_all
      define s2 where "s2 = (if in_comment st1 then st1
                             else st1\<lparr>current_query := current_query st1 @ [l1]\<rparr>)"
      have p: "process_lines s2 ls = Inr st'"
        using Cons.prems(1) False by (simp add: process_lines_scan [OF _ _ r] s2_def)
      have ic: "in_comment st1 \<longleftrightarrow> s1 = Block"
        using e by (cases s1) (simp_all add: agrees_def enc_def)
      have "lines_ok s2 s1"
        using e ic by (auto simp: lines_ok_def s2_def scanned_def agrees_def)
      then show ?thesis
        using p ll nl(1) Cons.IH by blast
    qed
  qed
qed

lemma strip_Nil_iff: "strip s = [] \<longleftrightarrow> (\<forall>c\<in>set s. isspace c)"
proof
  assume "strip s = []"
  then show "\<forall>c\<in>set s. isspace c"
    using strip_decomp [of s] by auto
next
  assume "\<forall>c\<in>set s. isspace c"
  then show "strip s = []"
    using strip_spaces_left [of s "[]"] by simp
qed

lemma lex_all_spaces: "\<forall>c\<in>set w. isspace c \<Longrightarrow> lexer d s w rest = Some s"
  using lex_spaces [of w d s "[]" rest] by simp

lemma lines_ok_final:
  assumes "process_lines init_state (split_on (CHR ''\<newline>'') sql) = Inr st"
    and "lex_lines Code (split_on (CHR ''\<newline>'') sql) = Some e"
  shows "lines_ok st e"
proof -
  have i: "lines_ok init_state Code"
    by (simp add: lines_ok_def init_state_def agrees_def enc_def)
  have l: "\<forall>l\<in>set (split_on (CHR ''\<newline>'') sql). CHR ''\<newline>'' \<notin> set l"
    by (rule split_on_free)
  show ?thesis
    using assms(1) i assms(2) l by (rule process_lines_ok)
qed

section \<open>A delimiter inside a string literal, in regular text\<close>

lemma lex_dropWhile: "lexer d s (dropWhile isspace t) rest = lexer d s t rest"
proof -
  have "lexer d s (takeWhile isspace t @ dropWhile isspace t) rest = lexer d s (dropWhile isspace t) rest"
    by (rule lex_spaces) (auto dest: set_takeWhileD)
  then show ?thesis by simp
qed

lemma lex_around_literal:
  assumes "lexer False Code pre [] = Some Code" "lexer False Code post [] = Some Code"
    and "CHR 0x27 \<notin> set lit"
  shows "lexer False Code (pre @ CHR 0x27 # lit @ CHR 0x27 # post) '';'' = Some Code"
proof -
  let ?q = "CHR 0x27"
  have q: "is_quote ?q"
    by (simp add: is_quote_def)
  have 1: "lexer False Code pre (?q # lit @ ?q # post @ '';'') = Some Code"
    using assms(1) by (rule lex_rest_safe) (simp add: safe_def)
  have 2: "lexer False (Lit ?q) lit (?q # post @ '';'') = Some (Lit ?q)"
    using assms(3) by (rule lex_in_literal)
  have 3: "lexer False Code post '';'' = Some Code"
    using assms(2) by (rule lex_rest_safe) (simp add: safe_def)
  have "lexer False Code (pre @ (?q # lit @ ?q # post)) '';'' = lexer False Code (?q # lit @ ?q # post) '';''"
    using 1 by (intro lex_join) simp
  also have "\<dots> = lexer False (Lit ?q) (lit @ (?q # post)) '';''"
    using q by (simp add: lex_Cons token_def)
  also have "\<dots> = lexer False (Lit ?q) (?q # post) '';''"
    using 2 by (intro lex_join) simp
  also have "\<dots> = lexer False Code post '';''"
    using q by (simp add: lex_Cons token_def)
  finally show ?thesis
    using 3 by simp
qed

text \<open>
  Claim C5, as stated: every single-line input with a \<open>;\<close> inside a single-quoted literal and
  a terminating \<open>;\<close> gives exactly one statement. Such an input may hold another statement
  before the one with the literal, or a comment after the last delimiter, which is kept as
  text: both give two statements.
\<close>

theorem literal_delimiter_counterexample:
  "split_sql_queries ''SELECT 1; SELECT 'a;b' AS x;'' = Inr [''SELECT 1'', ''SELECT 'a;b' AS x'']
   \<and> split_sql_queries ''SELECT 'a;b' AS x; /* ok */'' = Inr [''SELECT 'a;b' AS x'', ''/* ok */'']"
proof
  show "split_sql_queries ''SELECT 1; SELECT 'a;b' AS x;'' = Inr [''SELECT 1'', ''SELECT 'a;b' AS x'']"
    by code_simp
next
  show "split_sql_queries ''SELECT 'a;b' AS x; /* ok */'' = Inr [''SELECT 'a;b' AS x'', ''/* ok */'']"
    by code_simp
qed

text \<open>
  Claim C5, amended. A single-line input that is one statement with a single-quoted literal,
  closed by a delimiter: text, the literal, text, \<open>;\<close>. The text before the literal and the
  text after it are regular and end in code: they may hold literals and block comments, each
  closed, but no delimiter in code, no \<open>--\<close> outside a literal, no \<open>*/\<close> in code and no \<open>/*\<close>
  inside a comment. Whatever the literal holds between its quotes (a \<open>;\<close>, a comment marker,
  a double quote), the result is exactly one statement, the stripped text before the last
  delimiter, and it holds the literal unchanged.
\<close>

theorem literal_delimiter_kept:
  assumes "lexer False Code pre [] = Some Code" "lexer False Code post [] = Some Code"
    and "CHR 0x27 \<notin> set lit" "CHR ''\<newline>'' \<notin> set (pre @ lit @ post)"
  shows "split_sql_queries (pre @ CHR 0x27 # lit @ CHR 0x27 # post @ '';'')
           = Inr [strip (pre @ CHR 0x27 # lit @ CHR 0x27 # post)]
         \<and> (\<exists>u v. strip (pre @ CHR 0x27 # lit @ CHR 0x27 # post) = u @ CHR 0x27 # lit @ CHR 0x27 # v)"
proof
  let ?body = "pre @ CHR 0x27 # lit @ CHR 0x27 # post"
  define pre' where "pre' = dropWhile isspace pre"
  define t where "t = pre' @ CHR 0x27 # lit @ CHR 0x27 # post"
  have t: "t = dropWhile isspace ?body"
    unfolding t_def pre'_def by (rule dropWhile_nonspace [symmetric]) simp
  have "strip (?body @ '';'') = dropWhile isspace ?body @ '';''"
    by (rule strip_snoc_nonspace) simp
  then have s: "strip (pre @ CHR 0x27 # lit @ CHR 0x27 # post @ '';'') = t @ '';''"
    by (simp add: t)
  have p: "lexer False Code pre' [] = Some Code"
    using assms(1) by (simp add: pre'_def lex_dropWhile)
  have c: "lexer False Code t '';'' = Some Code"
    unfolding t_def using p assms(2,3) by (rule lex_around_literal)
  have st: "strip t = strip ?body"
    by (simp add: strip_around_literal t_def pre'_def)
  have ne: "strip ?body \<noteq> []"
    by (simp add: strip_around_literal)
  have nl: "CHR ''\<newline>'' \<notin> set (pre @ CHR 0x27 # lit @ CHR 0x27 # post @ '';'')"
    using assms(4) by simp
  have "split_sql_queries (pre @ CHR 0x27 # lit @ CHR 0x27 # post @ '';'')
          = Inr (if strip t = [] then [] else [strip t])"
    using c s nl by (intro single_statement_lex) (simp_all add: t_def)
  then show "split_sql_queries (pre @ CHR 0x27 # lit @ CHR 0x27 # post @ '';'') = Inr [strip ?body]"
    using st ne by simp
next
  show "\<exists>u v. strip (pre @ CHR 0x27 # lit @ CHR 0x27 # post) = u @ CHR 0x27 # lit @ CHR 0x27 # v"
    using strip_around_literal by blast
qed

theorem literal_delimiter_kept_witness:
  "lexer False Code '' /* c */ SELECT '' [] = Some Code
   \<and> lexer False Code '' AS \"x;y\" '' [] = Some Code
   \<and> split_sql_queries '' /* c */ SELECT 'a;b' AS \"x;y\" ;'' = Inr [''/* c */ SELECT 'a;b' AS \"x;y\"'']"
proof -
  have h: "lexer False Code '' /* c */ SELECT '' [] = Some Code"
    "lexer False Code '' AS \"x;y\" '' [] = Some Code"
    "CHR 0x27 \<notin> set ''a;b''"
    "CHR ''\<newline>'' \<notin> set ('' /* c */ SELECT '' @ ''a;b'' @ '' AS \"x;y\" '')"
    by code_simp+
  have "strip ('' /* c */ SELECT '' @ CHR 0x27 # ''a;b'' @ CHR 0x27 # '' AS \"x;y\" '')
          = ''/* c */ SELECT 'a;b' AS \"x;y\"''"
    by code_simp
  then show ?thesis
    using literal_delimiter_kept [OF h] h(1,2) by simp
qed

section \<open>A script that ends inside a literal or a block comment\<close>

lemma lex_Lit_nonspace:
  assumes "lexer d Code t rest = Some (Lit q)"
  shows "strip t \<noteq> []"
proof
  assume "strip t = []"
  then have "\<forall>c\<in>set t. isspace c"
    by (simp add: strip_Nil_iff)
  then have "lexer d Code t rest = Some Code"
    by (rule lex_all_spaces)
  then show False
    using assms by simp
qed

text \<open>
  Claim C6, amended. The input \<open>SELECT 'abc\<close> gives \<open>['SELECT 'abc']\<close>. On every regular
  script the loop ends with the flags that stand for the lexical state at the end of the
  script. When the script ends inside a string literal, the accumulated text, joined and
  stripped, is not empty and is returned as the last statement, after the statements emitted
  at delimiters. When the script ends inside a block comment, the accumulated text is dropped
  and the statements emitted at delimiters are returned alone. The result is a list of
  statements and nothing else.
\<close>

theorem unterminated_input_flush:
  assumes "lex_lines Code (split_on (CHR ''\<newline>'') sql) = Some e"
  shows "split_sql_queries ''SELECT 'abc'' = Inr [''SELECT 'abc'']
         \<and> (\<exists>st. process_lines init_state (split_on (CHR ''\<newline>'') sql) = Inr st
           \<and> agrees st e
           \<and> (\<forall>q. e = Lit q \<longrightarrow>
                strip (join '' '' (current_query st)) \<noteq> []
                \<and> split_sql_queries sql = Inr (queries st @ [strip (join '' '' (current_query st))]))
           \<and> (e = Block \<longrightarrow> split_sql_queries sql = Inr (queries st)))"
proof
  show "split_sql_queries ''SELECT 'abc'' = Inr [''SELECT 'abc'']"
    by code_simp
next
  obtain st where st: "process_lines init_state (split_on (CHR ''\<newline>'') sql) = Inr st"
    using process_lines_total by blast
  have ok: "lines_ok st e"
    using st assms by (rule lines_ok_final)
  then have ag: "agrees st e"
    by (simp add: lines_ok_def)
  have r: "split_sql_queries sql = Inr (finish st)"
    using st by (simp add: split_sql_queries_def)
  let ?J = "join '' '' (current_query st)"
  have 1: "strip ?J \<noteq> [] \<and> split_sql_queries sql = Inr (queries st @ [strip ?J])" if e: "e = Lit q" for q
  proof -
    have l: "lexer False Code ?J [] = Some (Lit q)"
      using ok e by (simp add: lines_ok_def)
    then have ne: "strip ?J \<noteq> []"
      by (rule lex_Lit_nonspace)
    then have cq: "current_query st \<noteq> []"
      by (auto simp: strip_def)
    have "\<not> in_comment st"
      using ag e by (simp add: agrees_facts)
    then have "finish st = queries st @ [strip ?J]"
      using ne cq by (simp add: finish_def Let_def)
    then show ?thesis
      using r ne by simp
  qed
  have 2: "split_sql_queries sql = Inr (queries st)" if e: "e = Block"
  proof -
    have "in_comment st"
      using ag e by (simp add: agrees_facts)
    then have "finish st = queries st"
      by (simp add: finish_def)
    then show ?thesis
      using r by simp
  qed
  show "\<exists>st. process_lines init_state (split_on (CHR ''\<newline>'') sql) = Inr st
           \<and> agrees st e
           \<and> (\<forall>q. e = Lit q \<longrightarrow>
                strip (join '' '' (current_query st)) \<noteq> []
                \<and> split_sql_queries sql = Inr (queries st @ [strip (join '' '' (current_query st))]))
           \<and> (e = Block \<longrightarrow> split_sql_queries sql = Inr (queries st))"
    using st ag 1 2 by blast
qed

theorem unterminated_input_flush_witness:
  "lex_lines Code (split_on (CHR ''\<newline>'') ''SELECT 1;\<newline>SELECT 'abc'') = Some (Lit (CHR 0x27))
   \<and> split_sql_queries ''SELECT 1;\<newline>SELECT 'abc'' = Inr [''SELECT 1'', ''SELECT 'abc'']
   \<and> lex_lines Code (split_on (CHR ''\<newline>'') ''SELECT 1;\<newline>SELECT 2\<newline>/* abc'') = Some Block
   \<and> process_lines init_state (split_on (CHR ''\<newline>'') ''SELECT 1;\<newline>SELECT 2\<newline>/* abc'') =
       Inr \<lparr>queries = [''SELECT 1''], current_query = [[], ''SELECT 2''], in_string = False,
            string_char = None, in_comment = True\<rparr>
   \<and> split_sql_queries ''SELECT 1;\<newline>SELECT 2\<newline>/* abc'' = Inr [''SELECT 1'']"
proof -
  let ?A = "''SELECT 1;\<newline>SELECT 'abc''"
  let ?B = "''SELECT 1;\<newline>SELECT 2\<newline>/* abc''"
  let ?sa = "\<lparr>queries = [''SELECT 1''], current_query = [[], ''SELECT 'abc''], in_string = True,
            string_char = Some (CHR 0x27), in_comment = False\<rparr>"
  let ?sb = "\<lparr>queries = [''SELECT 1''], current_query = [[], ''SELECT 2''], in_string = False,
            string_char = None, in_comment = True\<rparr>"
  have la: "lex_lines Code (split_on (CHR ''\<newline>'') ?A) = Some (Lit (CHR 0x27))"
    by code_simp
  have lb: "lex_lines Code (split_on (CHR ''\<newline>'') ?B) = Some Block"
    by code_simp
  have pa: "process_lines init_state (split_on (CHR ''\<newline>'') ?A) = Inr ?sa"
    by code_simp
  have pb: "process_lines init_state (split_on (CHR ''\<newline>'') ?B) = Inr ?sb"
    by code_simp
  have ja: "strip (join '' '' [[], ''SELECT 'abc'']) = ''SELECT 'abc''"
    by code_simp
  have a: "split_sql_queries ?A = Inr [''SELECT 1'', ''SELECT 'abc'']"
    using unterminated_input_flush [OF la] pa ja by auto
  have b: "split_sql_queries ?B = Inr [''SELECT 1'']"
    using unterminated_input_flush [OF lb] pb by auto
  show ?thesis
    using la lb pb a b by simp
qed

section \<open>Splitting the statements of a regular script again\<close>

text \<open>
  Claim C7, as stated: every statement of a result, with a delimiter appended, is split into
  itself. The statement flushed from a script that ends inside a literal is not: its new
  delimiter lies inside the literal. Nor is a statement that starts inside a block comment
  opened on an earlier line, or after a \<open>--\<close> in the middle of an earlier line, or one that
  lost a line of a literal because the line starts with \<open>--\<close>.
\<close>

theorem resplit_counterexample:
  "split_sql_queries ''SELECT 'abc'' = Inr [''SELECT 'abc'']
   \<and> split_sql_queries (''SELECT 'abc'' @ '';'') \<noteq> Inr [''SELECT 'abc'']
   \<and> split_sql_queries ''/*\<newline>; ' */ x;'' = Inr [''; ' */ x'']
   \<and> split_sql_queries (''; ' */ x'' @ '';'') \<noteq> Inr [''; ' */ x'']
   \<and> split_sql_queries ''a -- b\<newline>' */ x;'' = Inr [CHR 0x27 # '' */ x'']
   \<and> split_sql_queries ((CHR 0x27 # '' */ x'') @ '';'') \<noteq> Inr [CHR 0x27 # '' */ x'']
   \<and> split_sql_queries (CHR 0x27 # ''x\<newline>--'\<newline>y'') = Inr [CHR 0x27 # ''x y'']
   \<and> split_sql_queries ((CHR 0x27 # ''x y'') @ '';'') \<noteq> Inr [CHR 0x27 # ''x y'']"
proof -
  have 1: "split_sql_queries ''SELECT 'abc'' = Inr [''SELECT 'abc'']"
    by code_simp
  have 2: "split_sql_queries (''SELECT 'abc'' @ '';'') = Inr [''SELECT 'abc;'']"
    by code_simp
  have 3: "split_sql_queries ''/*\<newline>; ' */ x;'' = Inr [''; ' */ x'']"
    by code_simp
  have 4: "split_sql_queries (''; ' */ x'' @ '';'') = Inr [CHR 0x27 # '' */ x;'']"
    by code_simp
  have 5: "split_sql_queries ''a -- b\<newline>' */ x;'' = Inr [CHR 0x27 # '' */ x'']"
    by code_simp
  have 6: "split_sql_queries ((CHR 0x27 # '' */ x'') @ '';'') = Inr [CHR 0x27 # '' */ x;'']"
    by code_simp
  have 7: "split_sql_queries (CHR 0x27 # ''x\<newline>--'\<newline>y'') = Inr [CHR 0x27 # ''x y'']"
    by code_simp
  have 8: "split_sql_queries ((CHR 0x27 # ''x y'') @ '';'') = Inr [CHR 0x27 # ''x y;'']"
    by code_simp
  show ?thesis
    using 1 2 3 4 5 6 7 8 by simp
qed

text \<open>
  Claim C7, amended. On every regular script, every statement of the result but the last,
  with a delimiter appended, is split into itself alone; when the script does not end inside
  a string literal, so is the last statement.
\<close>

theorem resplit_idempotent:
  assumes "lex_lines Code (split_on (CHR ''\<newline>'') sql) = Some e"
    and "split_sql_queries sql = Inr qs"
  shows "(\<forall>s\<in>set (butlast qs). split_sql_queries (s @ '';'') = Inr [s])
         \<and> ((\<forall>q. e \<noteq> Lit q) \<longrightarrow> (\<forall>s\<in>set qs. split_sql_queries (s @ '';'') = Inr [s]))"
proof -
  obtain st where st: "process_lines init_state (split_on (CHR ''\<newline>'') sql) = Inr st"
    using process_lines_total by blast
  have ok: "lines_ok st e"
    using st assms(1) by (rule lines_ok_final)
  have qs: "qs = finish st"
    using st assms(2) by (simp add: split_sql_queries_def)
  have q: "\<forall>s\<in>set (queries st). resplits s"
    using ok by (simp add: lines_ok_def)
  let ?J = "join '' '' (current_query st)"
  have f: "finish st = queries st \<or> finish st = queries st @ [strip ?J]"
    by (simp add: finish_def Let_def)
  then have 1: "\<forall>s\<in>set (butlast qs). resplits s"
    using q qs by (auto dest: in_set_butlastD)
  have 2: "\<forall>s\<in>set qs. resplits s" if ne: "\<forall>q. e \<noteq> Lit q"
  proof (cases "finish st = queries st")
    case True
    then show ?thesis using q qs by simp
  next
    case False
    then have fl: "finish st = queries st @ [strip ?J]" and nc: "\<not> in_comment st"
      and nj: "strip ?J \<noteq> []"
      using f by (auto simp: finish_def Let_def split: if_splits)
    have "e \<noteq> Block"
      using ok nc by (auto simp: lines_ok_def agrees_facts)
    then have e: "e = Code"
      using ne by (cases e) simp_all
    have l: "lexer False Code ?J [] = Some Code"
      "\<forall>p\<in>set (current_query st). CHR ''\<newline>'' \<notin> set p"
      using ok e by (simp_all add: lines_ok_def)
    have "CHR ''\<newline>'' \<notin> set ?J"
      using l(2) by (intro newline_free_join) simp_all
    then have "split_sql_queries (strip ?J @ '';'') = Inr [strip ?J]"
      using l(1) nj by (intro resplit_lex [of ?J "[]"])
    then have "resplits (strip ?J)"
      by (simp add: resplits_def)
    then show ?thesis
      using q qs fl by simp
  qed
  show ?thesis
    using 1 2 by (simp add: resplits_def)
qed

theorem resplit_idempotent_witness:
  "lex_lines Code (split_on (CHR ''\<newline>'') ''/* ; ; */ SELECT 2;\<newline>SELECT 'a\<newline>b;c' AS x;\<newline>SELECT 3'')
     = Some Code
   \<and> split_sql_queries (''/* ; ; */ SELECT 2'' @ '';'') = Inr [''/* ; ; */ SELECT 2'']
   \<and> split_sql_queries (''SELECT 'a b;c' AS x'' @ '';'') = Inr [''SELECT 'a b;c' AS x'']
   \<and> split_sql_queries (''SELECT 3'' @ '';'') = Inr [''SELECT 3'']
   \<and> lex_lines Code (split_on (CHR ''\<newline>'') ''SELECT 1;\<newline>SELECT 'abc'') = Some (Lit (CHR 0x27))
   \<and> split_sql_queries (''SELECT 1'' @ '';'') = Inr [''SELECT 1'']"
proof -
  let ?A = "''/* ; ; */ SELECT 2;\<newline>SELECT 'a\<newline>b;c' AS x;\<newline>SELECT 3''"
  let ?B = "''SELECT 1;\<newline>SELECT 'abc''"
  have la: "lex_lines Code (split_on (CHR ''\<newline>'') ?A) = Some Code"
    by code_simp
  have ra: "split_sql_queries ?A = Inr [''/* ; ; */ SELECT 2'', ''SELECT 'a b;c' AS x'', ''SELECT 3'']"
    by code_simp
  have lb: "lex_lines Code (split_on (CHR ''\<newline>'') ?B) = Some (Lit (CHR 0x27))"
    by code_simp
  have rb: "split_sql_queries ?B = Inr [''SELECT 1'', ''SELECT 'abc'']"
    by code_simp
  show ?thesis
    using resplit_idempotent [OF la ra] resplit_idempotent [OF lb rb] la lb by simp
qed

end
